theory Spec2Isabelle
  imports Complex_Main "HOL-Library.List_Lexorder"
begin

section \<open>Go values: integers, strings, failures\<close>

text \<open>
  Go's \<open>int\<close> is modelled by \<open>int\<close>: window sizes, margins and text lengths are far
  from the 64-bit bounds, and no arithmetic of the program is meant to wrap.
  Go's \<open>/\<close> and \<open>%\<close> truncate towards zero, HOL's \<open>div\<close> and \<open>mod\<close> round down,
  so both are written out. A zero divisor is a run-time panic and is a branch
  of every function that divides.

  A Go string is a byte sequence holding UTF-8. It is modelled by its sequence
  of code points (\<open>rune list\<close>), the result of the conversion \<open>[]rune(s)\<close>;
  \<open>len(s)\<close> counts bytes, so it is the sum of the encoded lengths.
  String comparison (\<open>sort.Strings\<close>) is bytewise, which on UTF-8 is the
  lexicographic order of the code points.
\<close>

type_synonym rune = nat
type_synonym gostring = "rune list"

datatype failure =
    InvalidArgument     \<comment> \<open>an \<open>error\<close> value made by \<open>errors.New\<close>\<close>
  | DivideByZero        \<comment> \<open>run-time panic: integer divide by zero\<close>
  | IndexOutOfRange     \<comment> \<open>run-time panic: index out of range\<close>

definition go_quot :: "int \<Rightarrow> int \<Rightarrow> int" where
  "go_quot a b = sgn a * sgn b * (\<bar>a\<bar> div \<bar>b\<bar>)"

definition go_rem :: "int \<Rightarrow> int \<Rightarrow> int" where
  "go_rem a b = a - b * go_quot a b"

definition utf8len :: "rune \<Rightarrow> nat" where
  "utf8len r = (if r < 128 then 1 else if r < 2048 then 2 else if r < 65536 then 3 else 4)"

definition len :: "gostring \<Rightarrow> int" where
  "len s = int (sum_list (map utf8len s))"

definition lit :: "string \<Rightarrow> gostring" where
  "lit cs = map of_char cs"

section \<open>parser: the content model\<close>

text \<open>
  A Go map is modelled by an association list with distinct keys; the order of
  the list is the order in which \<open>range\<close> happens to visit the map, which Go
  leaves unspecified. Reading a missing key yields the zero value.
\<close>

record Alias =
  Name :: gostring
  Cmd :: gostring
  Desc :: gostring

record Section =
  Label :: gostring
  Aliases :: "(gostring \<times> Alias) list"

definition zero_alias :: Alias where
  "zero_alias = \<lparr>Name = [], Cmd = [], Desc = []\<rparr>"

definition zero_section :: Section where
  "zero_section = \<lparr>Label = [], Aliases = []\<rparr>"

definition alias_at :: "(gostring \<times> Alias) list \<Rightarrow> gostring \<Rightarrow> Alias" where
  "alias_at as k = (case map_of as k of Some a \<Rightarrow> a | None \<Rightarrow> zero_alias)"

definition section_at :: "(gostring \<times> Section) list \<Rightarrow> gostring \<Rightarrow> Section" where
  "section_at sm k = (case map_of sm k of Some s \<Rightarrow> s | None \<Rightarrow> zero_section)"

text \<open>\<open>a.Aliases[bk] = ba\<close>: assignment into a map.\<close>

definition assign :: "gostring \<Rightarrow> 'v \<Rightarrow> (gostring \<times> 'v) list \<Rightarrow> (gostring \<times> 'v) list" where
  "assign k v m = (if k \<in> fst ` set m then map (\<lambda>(k', v'). if k' = k then (k', v) else (k', v')) m
                   else m @ [(k, v)])"

definition mergeSections :: "Section \<Rightarrow> Section \<Rightarrow> Section" where
  "mergeSections a b = a\<lparr>Aliases := fold (\<lambda>(bk, ba) as. assign bk ba as) (Aliases b) (Aliases a)\<rparr>"

definition mergeSectionMaps ::
  "(gostring \<times> Section) list \<Rightarrow> (gostring \<times> Section) list \<Rightarrow> (gostring \<times> Section) list" where
  "mergeSectionMaps a b =
     fold (\<lambda>(bk, bs) a'. case map_of a' bk of
                            Some as \<Rightarrow> assign bk (mergeSections as bs) a'
                          | None \<Rightarrow> assign bk bs a') b a"

section \<open>panel: what a layout pass produces\<close>

text \<open>
  The terminal is an opaque collaborator. A pass is observed through the calls
  it makes: \<open>emitStr\<close> and \<open>drawBox\<close> on the screen, and \<open>log.Error\<close>. Events
  emitted before a panic stay in the trace.
\<close>

datatype colour = White | Red

datatype event =
    EmitStr int int colour gostring
  | DrawBox int int int int colour
  | LogError failure

text \<open>
  A placement is one call \<open>drawSection(s, px, py, pw, bh+2, sm[sl])\<close> of the
  pass, with the column it was made in.
\<close>

record placement =
  column_no :: int
  block_label :: gostring
  origin_x :: int
  origin_y :: int
  width :: int
  height :: int

datatype ending = Returned | Failed failure | NoReturn

record frame =
  placed :: "placement list"
  drawn :: "event list"
  outcome :: ending

section \<open>panel: text shaping\<close>

text \<open>
  \<open>strings.Builder\<close> belongs to the Go library, not to the repository. A
  builder is the text written so far together with its capacity, and the two
  choices the library makes are parameters of the model: the capacity of an
  empty builder after \<open>b.Grow(n)\<close>, of which the library promises only that
  it is at least \<open>n\<close> (and which is 0 for \<open>n = 0\<close>, where nothing is
  allocated), and the capacity after an append that does not fit.
\<close>

record runtime =
  grow_cap :: "int \<Rightarrow> int"
  append_cap :: "int \<Rightarrow> int \<Rightarrow> int"

text \<open>
  Two runtimes for concrete runs: one allocates exactly what is asked for;
  the other rounds a request up to a multiple of 8, as an allocator with
  size classes does for small requests.
\<close>

definition exact_runtime :: runtime where
  "exact_runtime = \<lparr>grow_cap = (\<lambda>n. n), append_cap = (\<lambda>c n. max (2 * c) n)\<rparr>"

definition rounding_runtime :: runtime where
  "rounding_runtime =
     \<lparr>grow_cap = (\<lambda>n. 8 * ((n + 7) div 8)),
      append_cap = (\<lambda>c n. max (2 * c) (8 * ((n + 7) div 8)))\<rparr>"

type_synonym builder = "gostring \<times> int"

definition WriteRune :: "runtime \<Rightarrow> builder \<Rightarrow> rune \<Rightarrow> builder" where
  "WriteRune rt b r =
     (let n = len (fst b) + int (utf8len r)
      in (fst b @ [r], if n > snd b then append_cap rt (snd b) n else snd b))"

text \<open>
  The loop \<open>for ; i < b.Cap()-k; i++ { b.WriteRune(rs[i]) }\<close>, with \<open>k = 3\<close>
  for the first loop of \<open>truncate\<close> and \<open>k = 0\<close> for the second. The capacity
  is read again in every round. The loop returns the counter and the
  builder, or panics on an index past the end of \<open>rs\<close>.
\<close>

function write_runes :: "runtime \<Rightarrow> gostring \<Rightarrow> int \<Rightarrow> int \<Rightarrow> builder \<Rightarrow> failure + (int \<times> builder)" where
  "write_runes rt rs i k b =
     (if i < snd b - k then
        (if 0 \<le> i \<and> i < int (length rs)
         then write_runes rt rs (i + 1) k (WriteRune rt b (rs ! nat i))
         else Inl IndexOutOfRange)
      else Inr (i, b))"
  by pat_completeness auto
termination
  by (relation "measure (\<lambda>(rt, rs, i, k, b). nat (int (length rs) - i))") auto

declare write_runes.simps [simp del]

definition truncate :: "runtime \<Rightarrow> gostring \<Rightarrow> int \<Rightarrow> failure + gostring" where
  "truncate rt s w =
     (if w < 0 then Inl InvalidArgument
      else if len s \<le> w then Inr s
      else (case write_runes rt s 0 3 ([], grow_cap rt w) of
              Inl e \<Rightarrow> Inl e
            | Inr (i, b) \<Rightarrow>
                if len (fst b) > 0 then Inr (fst b @ lit ''...'')
                else (case write_runes rt s i 0 b of
                        Inl e \<Rightarrow> Inl e
                      | Inr (j, b') \<Rightarrow> Inr (fst b'))))"

definition minHeight :: "int \<Rightarrow> gostring \<Rightarrow> failure + int" where
  "minHeight w t =
     (if w = 0 then Inl DivideByZero
      else (let h = go_quot (len t) w
            in Inr (if go_rem (len t) w > 0 then h + 1 else h)))"

section \<open>panel: column rt geometry\<close>

definition minWindowWidth :: int where "minWindowWidth = 10"
definition minWindowHeight :: int where "minWindowHeight = 10"
definition minPanelWidth :: int where "minPanelWidth = 40"
definition maxPanelWidth :: int where "maxPanelWidth = 50"

text \<open>
  \<open>maxColumns\<close> as it stands: \<open>nc\<close> is assigned \<open>x1\<close> under the comparison and
  then assigned \<open>x2\<close> unconditionally. Both divisors are written out, with the
  panic on a zero divisor.
\<close>

definition maxColumns :: "int \<Rightarrow> int \<Rightarrow> int \<Rightarrow> failure + int" where
  "maxColumns w miw maw =
     (let as = w - 2 in
      if miw + 2 = 0 \<or> maw + 2 = 0 then Inl DivideByZero
      else (let x1 = go_quot as (miw + 2);
                x2 = go_quot as (maw + 2);
                nc0 = (if x1 > x2 then x1 else 0);
                nc1 = x2
            in Inr (if nc1 = 0 then 1 else nc1)))"

text \<open>
  The earlier \<open>panel\<close> file of the repository has the same function with the
  comparison returning directly; its caller \<open>maxPanels\<close> replaced 0 by 1.
\<close>

definition maxColumns_earlier :: "int \<Rightarrow> int \<Rightarrow> int \<Rightarrow> failure + int" where
  "maxColumns_earlier w miw maw =
     (let as = w - 2 in
      if miw + 2 = 0 \<or> maw + 2 = 0 then Inl DivideByZero
      else (let x1 = go_quot as (miw + 2);
                x2 = go_quot as (maw + 2)
            in Inr (if x1 > x2 then x1 else x2)))"

definition maxColumnWidth :: "int \<Rightarrow> int \<Rightarrow> int \<Rightarrow> failure + int" where
  "maxColumnWidth w nc m =
     (if nc = 0 then Inl DivideByZero else Inr (go_quot (w - (1 + nc) * m) nc))"

section \<open>panel: drawing\<close>

text \<open>
  The inner loop of \<open>drawTextBox\<close>: up to \<open>w\<close> runes are moved into the line
  builder; the flag is \<open>True\<close> when the text ran out (\<open>break loop\<close>).
\<close>

function fill_line :: "gostring \<Rightarrow> int \<Rightarrow> int \<Rightarrow> int \<Rightarrow> gostring \<Rightarrow> failure + (bool \<times> int \<times> gostring)" where
  "fill_line tt i j w b =
     (if j < w then
        (if i \<ge> len tt then Inr (True, i, b)
         else if 0 \<le> i \<and> i < int (length tt)
         then fill_line tt (i + 1) (j + 1) w (b @ [tt ! nat i])
         else Inl IndexOutOfRange)
      else Inr (False, i, b))"
  by pat_completeness auto
termination
  by (relation "measure (\<lambda>(tt, i, j, w, b). nat (w - j))") auto

declare fill_line.simps [simp del]

text \<open>
  The outer loop of \<open>drawTextBox\<close>, one line per round. A round that does not
  advance \<open>i\<close> (possible only for \<open>w \<le> 0\<close>) repeats itself for ever in the
  source; the model stops there with \<open>NoReturn\<close>.
\<close>

function text_lines :: "gostring \<Rightarrow> int \<Rightarrow> int \<Rightarrow> int \<Rightarrow> colour \<Rightarrow> int \<Rightarrow> event list \<times> ending" where
  "text_lines tt x y w st i =
     (if i < len tt then
        (case fill_line tt i 0 w [] of
           Inl e \<Rightarrow> ([], Failed e)
         | Inr (brk, i', b) \<Rightarrow>
             if brk then ([EmitStr x y st b], Returned)
             else if i' \<le> i then ([EmitStr x y st b], NoReturn)
             else (let (evs, r) = text_lines tt x (y + 1) w st i'
                   in (EmitStr x y st b # evs, r)))
      else ([], Returned))"
  by pat_completeness auto
termination
  by (relation "measure (\<lambda>(tt, x, y, w, st, i). nat (len tt - i))") auto

declare text_lines.simps [simp del]

definition drawTextBox :: "runtime \<Rightarrow> int \<Rightarrow> int \<Rightarrow> int \<Rightarrow> int \<Rightarrow> colour \<Rightarrow> gostring \<Rightarrow> event list \<times> ending" where
  "drawTextBox rt x y w h st t =
     (if w < 0 \<or> h < 0 then ([], Failed InvalidArgument)
      else (case truncate rt t (h * w) of
              Inl e \<Rightarrow> ([], Failed e)
            | Inr tt \<Rightarrow> text_lines tt x y w st 0))"

text \<open>
  The body loop of \<open>drawSection\<close> over the sorted alias names. An error value
  from \<open>drawTextBox\<close> is logged and the loop goes on; a panic ends everything.
\<close>

fun draw_aliases :: "runtime \<Rightarrow> int \<Rightarrow> int \<Rightarrow> int \<Rightarrow> int \<Rightarrow> int \<Rightarrow> (gostring \<times> Alias) list \<Rightarrow> gostring list
                     \<Rightarrow> event list \<times> ending" where
  "draw_aliases rt y h ax ay aw als [] = ([], Returned)"
| "draw_aliases rt y h ax ay aw als (an # rest) =
     (let a = alias_at als an;
          btext = Name a @ lit '': '' @ Cmd a
      in case minHeight aw btext of
           Inl e \<Rightarrow> ([], Failed e)
         | Inr ah \<Rightarrow>
             if (ay + ah) - y \<ge> h then ([], Returned)
             else (case drawTextBox rt ax ay aw ah Red btext of
                     (evs, Returned) \<Rightarrow>
                       (let (evs', r) = draw_aliases rt y h ax (ay + ah) aw als rest
                        in (evs @ evs', r))
                   | (evs, Failed InvalidArgument) \<Rightarrow>
                       (let (evs', r) = draw_aliases rt y h ax (ay + ah) aw als rest
                        in (evs @ LogError InvalidArgument # evs', r))
                   | (evs, r) \<Rightarrow> (evs, r)))"

definition drawSection :: "runtime \<Rightarrow> int \<Rightarrow> int \<Rightarrow> int \<Rightarrow> int \<Rightarrow> Section \<Rightarrow> event list \<times> ending" where
  "drawSection rt x y w h sn =
     (if x < 0 \<or> y < 0 \<or> w < 0 \<or> h < 0 then ([], Failed InvalidArgument)
      else (case truncate rt (Label sn) (w - 4) of
              Inl InvalidArgument \<Rightarrow> ([DrawBox x y w h White, LogError InvalidArgument], Failed InvalidArgument)
            | Inl e \<Rightarrow> ([DrawBox x y w h White], Failed e)
            | Inr ltext \<Rightarrow>
                (let label = lit ''['' @ ltext @ lit '']'';
                     hpadding = go_quot (w - len label) 2;
                     lx = x + hpadding;
                     (evs, r) = draw_aliases rt y h (x + 1) (y + 1) (w - 2) (Aliases sn)
                                  (sort (map fst (Aliases sn)))
                 in (DrawBox x y w h White # EmitStr lx y Red label # evs, r))))"

section \<open>panel: the layout pass\<close>

text \<open>The loop that sums the body height of a section over its aliases.\<close>

fun body_height :: "int \<Rightarrow> (gostring \<times> Alias) list \<Rightarrow> int \<Rightarrow> failure + int" where
  "body_height pw [] bh = Inr bh"
| "body_height pw ((an, a) # rest) bh =
     (case minHeight (pw - 2) (Name a @ lit '': '' @ Cmd a) of
        Inl e \<Rightarrow> Inl e
      | Inr ah \<Rightarrow> body_height pw rest (bh + ah))"

text \<open>
  How the inner loop \<open>for py < h\<close> is left: into the next column with the labels
  not yet drawn (\<open>continue loop\<close>, or \<open>py \<ge> h\<close>), out of both loops
  (\<open>break loop\<close>), or out of the pass (\<open>return\<close> after a logged error, a panic).
  The labels still to draw are \<open>sls[p:]\<close>, so \<open>p >= len(sm)\<close> is the empty list.
\<close>

datatype flow = Continue "gostring list" | Break | Halt ending

fun column :: "runtime \<Rightarrow> int \<Rightarrow> int \<Rightarrow> int \<Rightarrow> int \<Rightarrow> (gostring \<times> Section) list \<Rightarrow> int \<Rightarrow> gostring list
               \<Rightarrow> placement list \<times> event list \<times> flow" where
  "column rt h pw px c sm py [] = ([], [], if py < h then Break else Continue [])"
| "column rt h pw px c sm py (sl # rest) =
     (if \<not> py < h then ([], [], Continue (sl # rest))
      else (case body_height pw (Aliases (section_at sm sl)) 0 of
              Inl e \<Rightarrow> ([], [], Halt (Failed e))
            | Inr bh \<Rightarrow>
                if py + bh - 1 \<ge> h - 2 then ([], [], Continue (sl # rest))
                else (let pl = \<lparr>column_no = c, block_label = sl, origin_x = px, origin_y = py,
                                 width = pw, height = bh + 2\<rparr>
                      in case drawSection rt px py pw (bh + 2) (section_at sm sl) of
                           (evs, Returned) \<Rightarrow>
                             (let (pls, evs', f) = column rt h pw px c sm (py + bh + 2) rest
                              in (pl # pls, evs @ evs', f))
                         | (evs, Failed InvalidArgument) \<Rightarrow>
                             ([pl], evs @ [LogError InvalidArgument], Halt Returned)
                         | (evs, r) \<Rightarrow> ([pl], evs, Halt r))))"

function columns :: "runtime \<Rightarrow> int \<Rightarrow> int \<Rightarrow> int \<Rightarrow> int \<Rightarrow> (gostring \<times> Section) list \<Rightarrow> int \<Rightarrow> gostring list
                     \<Rightarrow> placement list \<times> event list \<times> ending" where
  "columns rt nc h pw m sm c rest =
     (if c < nc then
        (case column rt h pw (m + (pw + m) * c) c sm m rest of
           (pls, evs, Continue rest') \<Rightarrow>
             (let (pls', evs', r) = columns rt nc h pw m sm (c + 1) rest'
              in (pls @ pls', evs @ evs', r))
         | (pls, evs, Break) \<Rightarrow> (pls, evs, Returned)
         | (pls, evs, Halt r) \<Rightarrow> (pls, evs, r))
      else ([], [], Returned))"
  by pat_completeness auto
termination
  by (relation "measure (\<lambda>(rt, nc, h, pw, m, sm, c, rest). nat (nc - c))") auto

declare columns.simps [simp del]

definition drawPanels :: "runtime \<Rightarrow> int \<Rightarrow> int \<Rightarrow> (gostring \<times> Section) list \<Rightarrow> int \<Rightarrow> frame" where
  "drawPanels rt w h sm m =
     (if w < minWindowWidth \<or> h < minWindowHeight
      then \<lparr>placed = [], drawn = [], outcome = Returned\<rparr>
      else (let msg = lit ''Press [Q]uit to exit'';
                help = EmitStr (w - len msg) 0 White msg
            in case maxColumns w minPanelWidth maxPanelWidth of
                 Inl e \<Rightarrow> \<lparr>placed = [], drawn = [help], outcome = Failed e\<rparr>
               | Inr nc \<Rightarrow>
                   (case maxColumnWidth w nc m of
                      Inl e \<Rightarrow> \<lparr>placed = [], drawn = [help], outcome = Failed e\<rparr>
                    | Inr pw \<Rightarrow>
                        (let (pls, evs, r) = columns rt nc h pw m sm 0 (sort (map fst sm))
                         in \<lparr>placed = pls, drawn = help # evs, outcome = r\<rparr>))))"

section \<open>Reading a pass\<close>

text \<open>What the \<open>drawSection\<close> call of a placement did, replayed from the placement.\<close>

definition section_call :: "runtime \<Rightarrow> (gostring \<times> Section) list \<Rightarrow> placement \<Rightarrow> event list \<times> ending" where
  "section_call rt sm pl =
     drawSection rt (origin_x pl) (origin_y pl) (width pl) (height pl) (section_at sm (block_label pl))"

text \<open>
  How a placement \<open>q\<close> may follow a placement \<open>p\<close> in a pass with margin \<open>m\<close>
  in a window of height \<open>h\<close>: stacked right below \<open>p\<close> in the same column, or
  at the top of the next column, and this only when the column rt of \<open>p\<close> was
  full or \<open>q\<close> would have ended below the last row there.
\<close>

definition follows :: "int \<Rightarrow> int \<Rightarrow> placement \<Rightarrow> placement \<Rightarrow> bool" where
  "follows m h p q \<longleftrightarrow>
     column_no q = column_no p \<and> origin_y q = origin_y p + height p
     \<or> column_no q = column_no p + 1 \<and> origin_y q = m \<and>
       (h \<le> origin_y p + height p \<or> h < origin_y p + height p + height q)"

text \<open>
  When the inner loop leaves a column at cursor \<open>py\<close> without drawing the
  block whose measured body height is \<open>hb\<close>: the column is full (\<open>py < h\<close>
  fails), or the test \<open>py+bh-1 >= h-2\<close> holds.
\<close>

definition no_room :: "int \<Rightarrow> int \<Rightarrow> failure + int \<Rightarrow> bool" where
  "no_room h py hb \<longleftrightarrow>
     \<not> py < h \<or> (case hb of Inl e \<Rightarrow> False | Inr bh \<Rightarrow> py + bh - 1 \<ge> h - 2)"

text \<open>
  What a section should look like on the screen, in the words of the
  description of \<open>drawSection\<close> and of wrapping a text into a box: a text is
  cut into successive lines of the interior width, the last one possibly
  shorter; the items of a section are taken in the lexicographic order of
  their names, each is the text \<open>name: command\<close> on as many rows as it has
  lines, one item below the other, and the items stop before the first one
  whose lines would reach the bottom of the frame.
\<close>

function chunks :: "nat \<Rightarrow> 'a list \<Rightarrow> 'a list list" where
  "chunks n t = (if n = 0 \<or> t = [] then [] else take n t # chunks n (drop n t))"
  by pat_completeness auto
termination
  by (relation "measure (\<lambda>(n, t). length t)") auto

declare chunks.simps [simp del]

definition text_rows :: "int \<Rightarrow> int \<Rightarrow> colour \<Rightarrow> nat \<Rightarrow> gostring \<Rightarrow> event list" where
  "text_rows x y st n t = map (\<lambda>(k, line). EmitStr x (y + int k) st line) (enumerate 0 (chunks n t))"

fun body_rows :: "int \<Rightarrow> int \<Rightarrow> int \<Rightarrow> int \<Rightarrow> nat \<Rightarrow> gostring list \<Rightarrow> event list" where
  "body_rows y h ax ay aw [] = []"
| "body_rows y h ax ay aw (t # ts) =
     (let ah = int (length (chunks aw t))
      in if h \<le> ay + ah - y then []
         else text_rows ax ay Red aw t @ body_rows y h ax (ay + ah) aw ts)"

definition item_text :: "Alias \<Rightarrow> gostring" where
  "item_text a = Name a @ lit '': '' @ Cmd a"

definition items_in_name_order :: "Section \<Rightarrow> gostring list" where
  "items_in_name_order sn =
     map (\<lambda>n. item_text (alias_at (Aliases sn) n)) (sort (map fst (Aliases sn)))"

definition section_picture :: "int \<Rightarrow> int \<Rightarrow> int \<Rightarrow> int \<Rightarrow> Section \<Rightarrow> event list" where
  "section_picture x y w h sn =
     DrawBox x y w h White #
     EmitStr (x + go_quot (w - len (lit ''['' @ Label sn @ lit '']'')) 2) y Red
       (lit ''['' @ Label sn @ lit '']'') #
     body_rows y h (x + 1) (y + 1) (nat (w - 2)) (items_in_name_order sn)"

definition ascii :: "gostring \<Rightarrow> bool" where
  "ascii t \<longleftrightarrow> list_all (\<lambda>r. r < 128) t"

definition ascii_section :: "Section \<Rightarrow> bool" where
  "ascii_section sn \<longleftrightarrow>
     ascii (Label sn) \<and> list_all (\<lambda>(n, a). ascii (Name a) \<and> ascii (Cmd a)) (Aliases sn)"

text \<open>
  Two association lists stand for the same Go map when both have distinct
  keys and the same entries; they differ in the order of iteration only.
  Sections are compared up to that, and so are maps of sections.
\<close>

definition same_aliases :: "(gostring \<times> Alias) list \<Rightarrow> (gostring \<times> Alias) list \<Rightarrow> bool" where
  "same_aliases as as' \<longleftrightarrow>
     distinct (map fst as) \<and> distinct (map fst as') \<and> set as = set as'"

definition same_section :: "Section \<Rightarrow> Section \<Rightarrow> bool" where
  "same_section s s' \<longleftrightarrow> Label s = Label s' \<and> same_aliases (Aliases s) (Aliases s')"

definition same_sections :: "(gostring \<times> Section) list \<Rightarrow> (gostring \<times> Section) list \<Rightarrow> bool" where
  "same_sections sm sm' \<longleftrightarrow>
     distinct (map fst sm) \<and> distinct (map fst sm') \<and> set (map fst sm) = set (map fst sm') \<and>
     list_all (\<lambda>k. same_section (section_at sm k) (section_at sm' k)) (map fst sm)"

section \<open>Arithmetic and strings\<close>

lemmas window_defs = minWindowWidth_def minWindowHeight_def minPanelWidth_def maxPanelWidth_def

lemma go_quot_nonneg: "0 \<le> a \<Longrightarrow> 0 < b \<Longrightarrow> go_quot a b = a div b"
  by (cases "a = 0") (simp_all add: go_quot_def)

lemma go_rem_nonneg: "0 \<le> a \<Longrightarrow> 0 < b \<Longrightarrow> go_rem a b = a mod b"
  by (simp add: go_rem_def go_quot_nonneg minus_mult_div_eq_mod)

lemma go_quot_neg: "a < 0 \<Longrightarrow> 0 < b \<Longrightarrow> go_quot a b = - ((- a) div b)"
  by (simp add: go_quot_def)

lemma len_nonneg: "0 \<le> len t"
  by (simp add: len_def)

lemma len_Nil: "len [] = 0"
  by (simp add: len_def)

lemma len_ascii: "\<forall>r\<in>set s. r < 128 \<Longrightarrow> len s = int (length s)"
  by (induction s) (simp_all add: len_def utf8len_def)

lemma len_append: "len (s @ t) = len s + len t"
  by (simp add: len_def)

lemma len_dots: "len (lit ''...'') = 3"
  by (simp add: len_def lit_def utf8len_def)

lemma length_dots: "length (lit ''...'') = 3"
  by (simp add: lit_def)

lemma ascii_len: "ascii t \<Longrightarrow> len t = int (length t)"
  by (simp add: ascii_def list_all_iff len_ascii)

section \<open>The column count\<close>

lemma maxColumns_earlier_100: "maxColumns_earlier 100 minPanelWidth maxPanelWidth = Inr 2"
  by (simp add: maxColumns_earlier_def window_defs go_quot_def)

text \<open>
  C1. \<open>maxColumns\<close> should return the larger of the candidates
  \<open>(w - 2) / (miw + 2)\<close> and \<open>(w - 2) / (maw + 2)\<close>, and 1 when both are 0, so
  that \<open>maxColumns(100, 40, 50) = 2\<close>. On the code the candidates at width 100
  are 2 and 1 and the function returns 1: the assignment of the larger
  candidate is overwritten by the second one.
\<close>

theorem maxColumns_100_returns_high_density:
  "go_quot (100 - 2) (minPanelWidth + 2) = 2 \<and>
   go_quot (100 - 2) (maxPanelWidth + 2) = 1 \<and>
   maxColumns 100 minPanelWidth maxPanelWidth = Inr 1"
  by (simp add: maxColumns_def window_defs go_quot_def)

section \<open>truncate\<close>

lemma WriteRune_ascii:
  "r < 128 \<Longrightarrow> len buf + 1 \<le> cap \<Longrightarrow> WriteRune rt (buf, cap) r = (buf @ [r], cap)"
  by (simp add: WriteRune_def utf8len_def)

lemma write_runes_ascii:
  assumes "\<forall>r\<in>set rs. r < 128" "0 \<le> k" "cap - k \<le> int (length rs)"
  shows "0 \<le> i \<Longrightarrow> len buf \<le> i \<Longrightarrow>
         write_runes rt rs i k (buf, cap)
           = Inr (max i (cap - k), (buf @ take (nat (cap - k - i)) (drop (nat i) rs), cap))"
proof (induction "nat (cap - k - i)" arbitrary: i buf rule: less_induct)
  case less
  show ?case
  proof (cases "i < cap - k")
    case False
    then show ?thesis by (simp add: write_runes.simps [of rt rs i k])
  next
    case True
    with assms(3) less.prems have in_range: "0 \<le> i" "i < int (length rs)" by simp_all
    then have "rs ! nat i \<in> set rs" by simp
    with assms(1) have small: "rs ! nat i < 128" by blast
    have room: "len buf + 1 \<le> cap" using True less.prems(2) assms(2) by simp
    have w: "WriteRune rt (buf, cap) (rs ! nat i) = (buf @ [rs ! nat i], cap)"
      using small room by (rule WriteRune_ascii)
    have l: "len (buf @ [rs ! nat i]) \<le> i + 1"
      using small less.prems(2) by (simp add: len_append len_def utf8len_def)
    have "nat (cap - k - (i + 1)) < nat (cap - k - i)" using True by simp
    from less.hyps [OF this _ l] in_range
    have step: "write_runes rt rs (i + 1) k (buf @ [rs ! nat i], cap)
        = Inr (max (i + 1) (cap - k),
               ((buf @ [rs ! nat i]) @ take (nat (cap - k - (i + 1))) (drop (nat (i + 1)) rs), cap))"
      by simp
    have "nat (cap - k - i) = Suc (nat (cap - k - (i + 1)))" using True by simp
    moreover have "drop (nat i) rs = rs ! nat i # drop (nat (i + 1)) rs"
      using in_range by (simp add: Cons_nth_drop_Suc nat_add_distrib)
    ultimately have "take (nat (cap - k - i)) (drop (nat i) rs)
        = rs ! nat i # take (nat (cap - k - (i + 1))) (drop (nat (i + 1)) rs)" by simp
    then show ?thesis
      using True in_range step w by (simp add: write_runes.simps [of rt rs i k] max_def)
  qed
qed

lemma write_runes_short:
  assumes "\<forall>r\<in>set rs. r < 128" "0 \<le> k" "int (length rs) < cap - k"
  shows "0 \<le> i \<Longrightarrow> i \<le> int (length rs) \<Longrightarrow> len buf \<le> i \<Longrightarrow>
         write_runes rt rs i k (buf, cap) = Inl IndexOutOfRange"
proof (induction "nat (int (length rs) - i)" arbitrary: i buf rule: less_induct)
  case less
  from assms(3) less.prems(2) have lt: "i < cap - k" by simp
  show ?case
  proof (cases "i < int (length rs)")
    case False
    with lt show ?thesis by (simp add: write_runes.simps [of rt rs i k])
  next
    case True
    with less.prems(1) have "rs ! nat i \<in> set rs" by simp
    with assms(1) have small: "rs ! nat i < 128" by blast
    have room: "len buf + 1 \<le> cap" using lt less.prems(3) assms(2) by simp
    have w: "WriteRune rt (buf, cap) (rs ! nat i) = (buf @ [rs ! nat i], cap)"
      using small room by (rule WriteRune_ascii)
    have l: "len (buf @ [rs ! nat i]) \<le> i + 1"
      using small less.prems(3) by (simp add: len_append len_def utf8len_def)
    have "nat (int (length rs) - (i + 1)) < nat (int (length rs) - i)" using True by simp
    from less.hyps [OF this _ _ l] less.prems(1) True
    have "write_runes rt rs (i + 1) k (buf @ [rs ! nat i], cap) = Inl IndexOutOfRange" by simp
    then show ?thesis
      using lt True less.prems(1) w by (simp add: write_runes.simps [of rt rs i k])
  qed
qed

text \<open>
  C4. \<open>truncate\<close> should cut a text longer than \<open>w\<close> to exactly \<open>w\<close>
  characters ending in \<open>...\<close> (for \<open>w \<ge> 3\<close>). The code fills the builder up
  to its capacity, not up to \<open>w\<close>: for a text of ASCII characters longer
  than \<open>w\<close>, with \<open>c\<close> the capacity the library gives the builder after
  \<open>Grow(w)\<close>, the result is the first \<open>c - 3\<close> characters followed by \<open>...\<close>
  when \<open>c \<ge> 4\<close>, the first \<open>c\<close> characters without ellipsis when \<open>c \<le> 3\<close>,
  and an index panic when the text has fewer characters than that. The
  result has \<open>c\<close> characters, which is \<open>w\<close> only if the library allocates
  exactly.
\<close>

theorem truncate_fills_capacity:
  assumes "\<forall>r\<in>set s. r < 128" and "0 \<le> w" and "w < len s" and "w \<le> grow_cap rt w"
  shows "truncate rt s w =
           (if grow_cap rt w \<le> 3
            then (if grow_cap rt w \<le> len s then Inr (take (nat (grow_cap rt w)) s)
                  else Inl IndexOutOfRange)
            else (if grow_cap rt w - 3 \<le> len s
                  then Inr (take (nat (grow_cap rt w - 3)) s @ lit ''...'')
                  else Inl IndexOutOfRange))"
proof -
  define c where "c = grow_cap rt w"
  have n: "len s = int (length s)" using assms(1) by (rule len_ascii)
  have c0: "0 \<le> c" using assms(2,4) by (simp add: c_def)
  show ?thesis
  proof (cases "c \<le> 3")
    case True
    have first: "write_runes rt s 0 3 ([], c) = Inr (0, ([], c))"
      using True by (simp add: write_runes.simps [of rt s 0 3])
    show ?thesis
    proof (cases "c \<le> len s")
      case fits: True
      have "write_runes rt s 0 0 ([], c)
          = Inr (max 0 (c - 0), ([] @ take (nat (c - 0 - 0)) (drop (nat 0) s), c))"
        using assms(1) fits n by (intro write_runes_ascii) (simp_all add: len_Nil)
      then have "write_runes rt s 0 0 ([], c) = Inr (c, (take (nat c) s, c))"
        using c0 by (simp add: max_def)
      with first True fits assms(2,3) show ?thesis
        by (simp add: truncate_def c_def [symmetric] len_Nil)
    next
      case False
      then have "write_runes rt s 0 0 ([], c) = Inl IndexOutOfRange"
        using assms(1) n by (intro write_runes_short) (simp_all add: len_Nil)
      with first True False assms(2,3) show ?thesis
        by (simp add: truncate_def c_def [symmetric] len_Nil)
    qed
  next
    case False
    show ?thesis
    proof (cases "c - 3 \<le> len s")
      case fits: True
      have "write_runes rt s 0 3 ([], c)
          = Inr (max 0 (c - 3), ([] @ take (nat (c - 3 - 0)) (drop (nat 0) s), c))"
        using assms(1) fits n by (intro write_runes_ascii) (simp_all add: len_Nil)
      then have first: "write_runes rt s 0 3 ([], c) = Inr (c - 3, (take (nat (c - 3)) s, c))"
        using False by (simp add: max_def)
      have "\<forall>r\<in>set (take (nat (c - 3)) s). r < 128"
        using assms(1) by (meson in_set_takeD)
      then have "len (take (nat (c - 3)) s) = int (length (take (nat (c - 3)) s))"
        by (rule len_ascii)
      then have "0 < len (take (nat (c - 3)) s)" using False fits n by simp
      with first False fits assms(2,3) show ?thesis
        by (simp add: truncate_def c_def [symmetric])
    next
      case short: False
      then have "write_runes rt s 0 3 ([], c) = Inl IndexOutOfRange"
        using assms(1) n by (intro write_runes_short) (simp_all add: len_Nil)
      with False short assms(2,3) show ?thesis
        by (simp add: truncate_def c_def [symmetric])
    qed
  qed
qed

theorem truncate_fills_capacity_witness:
  "list_all (\<lambda>r. r < 128) (lit ''aliases'') \<and> (0::int) \<le> 5 \<and> 5 < len (lit ''aliases'') \<and>
   5 \<le> grow_cap rounding_runtime 5 \<and> grow_cap rounding_runtime 5 = 8 \<and>
   truncate rounding_runtime (lit ''aliases'') 5 = Inr (lit ''alias...'') \<and>
   len (lit ''alias...'') = 8"
proof -
  have a: "\<forall>r\<in>set (lit ''aliases''). r < 128" by (simp add: lit_def)
  have b: "5 < len (lit ''aliases'')" by (simp add: lit_def len_def utf8len_def)
  have c: "grow_cap rounding_runtime 5 = 8" by (simp add: rounding_runtime_def)
  have d: "len (lit ''alias...'') = 8" by (simp add: lit_def len_def utf8len_def)
  show ?thesis
    using a b c d truncate_fills_capacity [OF a _ b, of rounding_runtime]
    by (simp add: lit_def list_all_iff)
qed

lemma truncate_exact_width3:
  "truncate exact_runtime (lit ''hello'') 3 = Inr (lit ''hel'')"
  by (simp add: truncate_def exact_runtime_def lit_def len_def utf8len_def
      write_runes.simps WriteRune_def)

lemma truncate_rounding_panics:
  "truncate rounding_runtime (lit ''abcd'') 3 = Inl IndexOutOfRange"
  by (simp add: truncate_def rounding_runtime_def lit_def len_def utf8len_def
      write_runes.simps WriteRune_def)

section \<open>minHeight\<close>

lemma minHeight_pos: "1 \<le> w \<Longrightarrow> minHeight w t = Inr (- ((- len t) div w))"
proof -
  assume w: "1 \<le> w"
  have q: "go_quot (len t) w = len t div w" and r: "go_rem (len t) w = len t mod w"
    using w by (simp_all add: go_quot_nonneg go_rem_nonneg len_nonneg)
  have "0 < w" using w by simp
  from pos_mod_sign [OF this, of "len t"]
  have "len t mod w \<noteq> 0 \<longleftrightarrow> 0 < len t mod w" by linarith
  then have "(if len t mod w > 0 then len t div w + 1 else len t div w) = - ((- len t) div w)"
    using w by (simp add: zdiv_zminus1_eq_if)
  then show ?thesis using w by (simp add: minHeight_def q r Let_def)
qed

lemma minHeight_zero_width: "minHeight 0 t = Inl DivideByZero"
  by (simp add: minHeight_def)

lemma minHeight_nonneg: "0 < w \<Longrightarrow> minHeight w t = Inr ah \<Longrightarrow> 0 \<le> ah"
  using len_nonneg [of t]
  by (auto simp add: minHeight_def Let_def go_quot_nonneg pos_imp_zdiv_nonneg_iff split: if_splits)

text \<open>
  C6. For every width \<open>w \<ge> 1\<close>, \<open>minHeight w t\<close> is the ceiling of
  \<open>len t / w\<close>; it does not decrease when the text gets longer; it is 0 on the
  empty text; and it is 3 for 25 characters at width 10.
\<close>

theorem minHeight_ceiling:
  assumes "1 \<le> w"
  shows "minHeight w t = Inr \<lceil>real_of_int (len t) / real_of_int w\<rceil> \<and>
         (len t \<le> len t' \<longrightarrow>
            (\<exists>h h'. minHeight w t = Inr h \<and> minHeight w t' = Inr h' \<and> h \<le> h')) \<and>
         minHeight w [] = Inr 0 \<and>
         minHeight 10 (replicate 25 (of_char CHR ''a'')) = Inr 3"
proof -
  have "minHeight w t = Inr \<lceil>real_of_int (len t) / real_of_int w\<rceil>"
    using assms by (simp add: minHeight_pos ceiling_divide_eq_div)
  moreover have "- ((- len t) div w) \<le> - ((- len t') div w)" if "len t \<le> len t'"
    using assms that by (simp add: zdiv_mono1)
  moreover have "minHeight w [] = Inr 0"
    using assms by (simp add: minHeight_pos len_Nil)
  moreover have "minHeight 10 (replicate 25 (of_char CHR ''a'')) = Inr 3"
    by (simp add: minHeight_def go_quot_def go_rem_def len_def utf8len_def sum_list_replicate)
  ultimately show ?thesis using assms by (simp add: minHeight_pos)
qed

theorem minHeight_ceiling_witness:
  "(1::int) \<le> 4 \<and> len (lit ''ab'') \<le> len (lit ''gs: git status'') \<and>
   minHeight 4 (lit ''gs: git status'') = Inr 4 \<and> minHeight 4 (lit ''ab'') = Inr 1"
proof -
  have l: "len (lit ''ab'') = 2" "len (lit ''gs: git status'') = 14"
    by (simp_all add: lit_def len_def utf8len_def)
  have c: "\<lceil>(14::real) / 4\<rceil> = 4" "\<lceil>(1::real) / 2\<rceil> = 1"
    by (simp_all add: ceiling_eq_iff)
  show ?thesis
    using minHeight_ceiling [of 4 "lit ''gs: git status''" "lit ''ab''"]
      minHeight_ceiling [of 4 "lit ''ab''" "lit ''gs: git status''"]
    by (simp add: l c)
qed

section \<open>parser: merging sections\<close>

lemma map_of_replace:
  "map_of (map (\<lambda>(k', v'). if k' = k then (k', v) else (k', v')) m) x
     = (if x = k then (if k \<in> fst ` set m then Some v else None) else map_of m x)"
proof (induction m)
  case Nil
  show ?case by simp
next
  case (Cons p m)
  obtain pk pv where p: "p = (pk, pv)" by (cases p)
  show ?case using Cons.IH by (cases "x = k") (auto simp add: p)
qed

lemma map_of_assign: "map_of (assign k v m) = (map_of m)(k \<mapsto> v)"
proof (cases "k \<in> fst ` set m")
  case False
  then have "map_of m k = None" by (simp add: map_of_eq_None_iff)
  then show ?thesis using False
    by (auto simp add: assign_def fun_eq_iff map_add_def split: option.splits)
next
  case True
  then have "assign k v m = map (\<lambda>(k', v'). if k' = k then (k', v) else (k', v')) m"
    by (simp add: assign_def)
  then show ?thesis using True by (simp add: fun_eq_iff map_of_replace)
qed

lemma distinct_assign: "distinct (map fst m) \<Longrightarrow> distinct (map fst (assign k v m))"
proof (cases "k \<in> fst ` set m")
  case True
  assume d: "distinct (map fst m)"
  have eq: "map fst (map (\<lambda>(k', v'). if k' = k then (k', v) else (k', v')) m) = map fst m"
    by (induction m) auto
  have "assign k v m = map (\<lambda>(k', v'). if k' = k then (k', v) else (k', v')) m"
    using True by (simp add: assign_def)
  then have "map fst (assign k v m) = map fst m" by (simp only: eq)
  then show ?thesis using d by (simp only:)
next
  case False
  assume "distinct (map fst m)"
  then show ?thesis using False by (simp add: assign_def)
qed

lemma map_of_fold_assign:
  "distinct (map fst bs) \<Longrightarrow>
   map_of (fold (\<lambda>(bk, ba) as. assign bk ba as) bs as) = map_of as ++ map_of bs"
proof (induction bs arbitrary: as)
  case Nil
  then show ?case by simp
next
  case (Cons p bs)
  obtain bk ba where p: "p = (bk, ba)" by (cases p)
  from Cons.prems p have fresh: "map_of bs bk = None" and d: "distinct (map fst bs)"
    by (auto simp add: map_of_eq_None_iff)
  have "map_of (fold (\<lambda>(bk, ba) as. assign bk ba as) bs (assign bk ba as))
        = (map_of as)(bk \<mapsto> ba) ++ map_of bs"
    by (simp only: Cons.IH [OF d] map_of_assign)
  also have "\<dots> = map_of as ++ map_of (p # bs)"
    using fresh by (auto simp add: p fun_eq_iff map_add_def split: option.splits)
  finally have "map_of (fold (\<lambda>(bk, ba) as. assign bk ba as) bs (assign bk ba as))
        = map_of as ++ map_of (p # bs)" .
  moreover have "fold (\<lambda>(bk, ba) as. assign bk ba as) (p # bs) as
        = fold (\<lambda>(bk, ba) as. assign bk ba as) bs (assign bk ba as)"
    by (simp add: p)
  ultimately show ?case by (simp only:)
qed

lemma distinct_fold_assign:
  "distinct (map fst as) \<Longrightarrow> distinct (map fst (fold (\<lambda>(bk, ba) as. assign bk ba as) bs as))"
  by (induction bs arbitrary: as) (auto simp add: distinct_assign)

text \<open>
  C8. Merging section \<open>b\<close> into section \<open>a\<close> gives a section in which every
  name of \<open>b\<close> has \<open>b\<close>'s alias (also when \<open>a\<close> has the name: the later
  definition wins) and every other name has what \<open>a\<close> has for it. The label
  is \<open>a\<close>'s, and the result is again a map. The sections need not even have
  the same label.
\<close>

theorem mergeSections_last_write_wins:
  assumes "distinct (map fst (Aliases b))"
  shows "(map_of (Aliases b) n = Some x \<longrightarrow> map_of (Aliases (mergeSections a b)) n = Some x) \<and>
         (map_of (Aliases b) n = None \<longrightarrow>
            map_of (Aliases (mergeSections a b)) n = map_of (Aliases a) n) \<and>
         Label (mergeSections a b) = Label a \<and>
         (distinct (map fst (Aliases a)) \<longrightarrow> distinct (map fst (Aliases (mergeSections a b))))"
  using assms
  by (simp add: mergeSections_def map_of_fold_assign map_add_def distinct_fold_assign)

theorem mergeSections_last_write_wins_witness:
  "distinct (map fst [(lit ''gs'', \<lparr>Name = lit ''gs'', Cmd = lit ''git stash'', Desc = []\<rparr>)]) \<and>
   map_of (Aliases (mergeSections
      \<lparr>Label = lit ''git'', Aliases =
         [(lit ''gs'', \<lparr>Name = lit ''gs'', Cmd = lit ''git status'', Desc = []\<rparr>),
          (lit ''gl'', \<lparr>Name = lit ''gl'', Cmd = lit ''git log'', Desc = []\<rparr>)]\<rparr>
      \<lparr>Label = lit ''git'', Aliases =
         [(lit ''gs'', \<lparr>Name = lit ''gs'', Cmd = lit ''git stash'', Desc = []\<rparr>)]\<rparr>)) (lit ''gs'')
     = Some \<lparr>Name = lit ''gs'', Cmd = lit ''git stash'', Desc = []\<rparr> \<and>
   map_of (Aliases (mergeSections
      \<lparr>Label = lit ''git'', Aliases =
         [(lit ''gs'', \<lparr>Name = lit ''gs'', Cmd = lit ''git status'', Desc = []\<rparr>),
          (lit ''gl'', \<lparr>Name = lit ''gl'', Cmd = lit ''git log'', Desc = []\<rparr>)]\<rparr>
      \<lparr>Label = lit ''git'', Aliases =
         [(lit ''gs'', \<lparr>Name = lit ''gs'', Cmd = lit ''git stash'', Desc = []\<rparr>)]\<rparr>)) (lit ''gl'')
     = Some \<lparr>Name = lit ''gl'', Cmd = lit ''git log'', Desc = []\<rparr>"
  using mergeSections_last_write_wins
    [of "\<lparr>Label = lit ''git'', Aliases =
         [(lit ''gs'', \<lparr>Name = lit ''gs'', Cmd = lit ''git stash'', Desc = []\<rparr>)]\<rparr>"
        "lit ''gs''" "\<lparr>Name = lit ''gs'', Cmd = lit ''git stash'', Desc = []\<rparr>"
        "\<lparr>Label = lit ''git'', Aliases =
         [(lit ''gs'', \<lparr>Name = lit ''gs'', Cmd = lit ''git status'', Desc = []\<rparr>),
          (lit ''gl'', \<lparr>Name = lit ''gl'', Cmd = lit ''git log'', Desc = []\<rparr>)]\<rparr>"]
    mergeSections_last_write_wins
    [of "\<lparr>Label = lit ''git'', Aliases =
         [(lit ''gs'', \<lparr>Name = lit ''gs'', Cmd = lit ''git stash'', Desc = []\<rparr>)]\<rparr>"
        "lit ''gl''" "\<lparr>Name = lit ''gl'', Cmd = lit ''git log'', Desc = []\<rparr>"
        "\<lparr>Label = lit ''git'', Aliases =
         [(lit ''gs'', \<lparr>Name = lit ''gs'', Cmd = lit ''git status'', Desc = []\<rparr>),
          (lit ''gl'', \<lparr>Name = lit ''gl'', Cmd = lit ''git log'', Desc = []\<rparr>)]\<rparr>"]
  by (simp add: lit_def)

section \<open>The layout pass: the shape of the loops\<close>

lemma column_Cons:
  "column rt h pw px c sm py (sl # rest) =
     (if \<not> py < h then ([], [], Continue (sl # rest))
      else (case body_height pw (Aliases (section_at sm sl)) 0 of
              Inl e \<Rightarrow> ([], [], Halt (Failed e))
            | Inr bh \<Rightarrow>
                if py + bh - 1 \<ge> h - 2 then ([], [], Continue (sl # rest))
                else (let pl = \<lparr>column_no = c, block_label = sl, origin_x = px, origin_y = py,
                                 width = pw, height = bh + 2\<rparr>;
                          res = drawSection rt px py pw (bh + 2) (section_at sm sl)
                      in if snd res = Returned
                         then (pl # fst (column rt h pw px c sm (py + bh + 2) rest),
                               fst res @ fst (snd (column rt h pw px c sm (py + bh + 2) rest)),
                               snd (snd (column rt h pw px c sm (py + bh + 2) rest)))
                         else if snd res = Failed InvalidArgument
                         then ([pl], fst res @ [LogError InvalidArgument], Halt Returned)
                         else ([pl], fst res, Halt (snd res)))))"
  by (simp add: Let_def split: sum.splits prod.splits ending.splits failure.splits)

declare column.simps(2) [simp del]

lemma column_Cons_cases [consumes 1, case_names full panic skip drawn error abort]:
  assumes "column rt h pw px c sm py (sl # rest) = (pls, evs, f)"
  obtains
    "\<not> py < h" "pls = []" "evs = []" "f = Continue (sl # rest)"
  | e where "py < h" "body_height pw (Aliases (section_at sm sl)) 0 = Inl e"
      "pls = []" "evs = []" "f = Halt (Failed e)"
  | bh where "py < h" "body_height pw (Aliases (section_at sm sl)) 0 = Inr bh"
      "py + bh - 1 \<ge> h - 2" "pls = []" "evs = []" "f = Continue (sl # rest)"
  | bh evs1 pls' evs' where "py < h" "body_height pw (Aliases (section_at sm sl)) 0 = Inr bh"
      "py + bh - 1 < h - 2"
      "drawSection rt px py pw (bh + 2) (section_at sm sl) = (evs1, Returned)"
      "column rt h pw px c sm (py + bh + 2) rest = (pls', evs', f)"
      "pls = \<lparr>column_no = c, block_label = sl, origin_x = px, origin_y = py,
                width = pw, height = bh + 2\<rparr> # pls'"
      "evs = evs1 @ evs'"
  | bh evs1 where "py < h" "body_height pw (Aliases (section_at sm sl)) 0 = Inr bh"
      "py + bh - 1 < h - 2"
      "drawSection rt px py pw (bh + 2) (section_at sm sl) = (evs1, Failed InvalidArgument)"
      "pls = [\<lparr>column_no = c, block_label = sl, origin_x = px, origin_y = py,
                width = pw, height = bh + 2\<rparr>]"
      "evs = evs1 @ [LogError InvalidArgument]" "f = Halt Returned"
  | bh evs1 r where "py < h" "body_height pw (Aliases (section_at sm sl)) 0 = Inr bh"
      "py + bh - 1 < h - 2"
      "drawSection rt px py pw (bh + 2) (section_at sm sl) = (evs1, r)"
      "r \<noteq> Returned" "r \<noteq> Failed InvalidArgument"
      "pls = [\<lparr>column_no = c, block_label = sl, origin_x = px, origin_y = py,
                width = pw, height = bh + 2\<rparr>]"
      "evs = evs1" "f = Halt r"
proof (cases "py < h")
  case False
  with assms have "pls = []" "evs = []" "f = Continue (sl # rest)"
    by (simp_all add: column_Cons)
  with False show ?thesis by (rule that(1))
next
  case True
  show ?thesis
  proof (cases "body_height pw (Aliases (section_at sm sl)) 0")
    case (Inl e)
    with assms True have "pls = []" "evs = []" "f = Halt (Failed e)"
      by (simp_all add: column_Cons)
    with True Inl show ?thesis by (rule that(2))
  next
    case (Inr bh)
    show ?thesis
    proof (cases "py + bh - 1 \<ge> h - 2")
      case True
      with assms \<open>py < h\<close> Inr have "pls = []" "evs = []" "f = Continue (sl # rest)"
        by (simp_all add: column_Cons)
      with \<open>py < h\<close> Inr True show ?thesis by (rule that(3))
    next
      case False
      then have lt: "py + bh - 1 < h - 2" by simp
      obtain evs1 r where res: "drawSection rt px py pw (bh + 2) (section_at sm sl) = (evs1, r)"
        by (cases "drawSection rt px py pw (bh + 2) (section_at sm sl)") auto
      obtain pls' evs' f' where rec: "column rt h pw px c sm (py + bh + 2) rest = (pls', evs', f')"
        by (cases "column rt h pw px c sm (py + bh + 2) rest") auto
      consider "r = Returned" | "r = Failed InvalidArgument"
        | "r \<noteq> Returned" "r \<noteq> Failed InvalidArgument" by blast
      then show ?thesis
      proof cases
        case 1
        have eq: "pls = \<lparr>column_no = c, block_label = sl, origin_x = px, origin_y = py,
                width = pw, height = bh + 2\<rparr> # pls'" "evs = evs1 @ evs'" "f' = f"
          using assms \<open>py < h\<close> Inr False res rec 1 by (simp_all add: column_Cons Let_def)
        show ?thesis
          by (rule that(4) [OF \<open>py < h\<close> Inr lt res [unfolded 1] rec [unfolded eq(3)] eq(1) eq(2)])
      next
        case 2
        have eq: "pls = [\<lparr>column_no = c, block_label = sl, origin_x = px, origin_y = py,
                width = pw, height = bh + 2\<rparr>]" "evs = evs1 @ [LogError InvalidArgument]"
            "f = Halt Returned"
          using assms \<open>py < h\<close> Inr False res 2 by (simp_all add: column_Cons Let_def)
        show ?thesis
          by (rule that(5) [OF \<open>py < h\<close> Inr lt res [unfolded 2] eq])
      next
        case 3
        have eq: "pls = [\<lparr>column_no = c, block_label = sl, origin_x = px, origin_y = py,
                width = pw, height = bh + 2\<rparr>]" "evs = evs1" "f = Halt r"
          using assms \<open>py < h\<close> Inr False res 3 by (simp_all add: column_Cons Let_def)
        show ?thesis
          by (rule that(6) [OF \<open>py < h\<close> Inr lt res 3 eq])
      qed
    qed
  qed
qed

lemma columns_cases [consumes 1, case_names finished onward break halt]:
  assumes "columns rt nc h pw m sm c rest = (pls, evs, r)"
  obtains
    "\<not> c < nc" "pls = []" "evs = []" "r = Returned"
  | pls1 evs1 rest' pls2 evs2 where "c < nc"
      "column rt h pw (m + (pw + m) * c) c sm m rest = (pls1, evs1, Continue rest')"
      "columns rt nc h pw m sm (c + 1) rest' = (pls2, evs2, r)"
      "pls = pls1 @ pls2" "evs = evs1 @ evs2"
  | "c < nc" "column rt h pw (m + (pw + m) * c) c sm m rest = (pls, evs, Break)" "r = Returned"
  | "c < nc" "column rt h pw (m + (pw + m) * c) c sm m rest = (pls, evs, Halt r)"
proof (cases "c < nc")
  case False
  with assms have "pls = []" "evs = []" "r = Returned"
    by (simp_all add: columns.simps [of rt nc h pw m sm c rest])
  with False show ?thesis by (rule that(1))
next
  case True
  obtain pls1 evs1 f where col: "column rt h pw (m + (pw + m) * c) c sm m rest = (pls1, evs1, f)"
    by (cases "column rt h pw (m + (pw + m) * c) c sm m rest") auto
  show ?thesis
  proof (cases f)
    case (Continue rest')
    obtain pls2 evs2 r2 where rec: "columns rt nc h pw m sm (c + 1) rest' = (pls2, evs2, r2)"
      by (cases "columns rt nc h pw m sm (c + 1) rest'") auto
    have eq: "pls = pls1 @ pls2" "evs = evs1 @ evs2" "r2 = r"
      using assms True col Continue rec by (simp_all add: columns.simps [of rt nc h pw m sm c rest])
    show ?thesis
      by (rule that(2) [OF True col [unfolded Continue] rec [unfolded eq(3)] eq(1) eq(2)])
  next
    case Break
    have eq: "pls1 = pls" "evs1 = evs" "r = Returned"
      using assms True col Break by (simp_all add: columns.simps [of rt nc h pw m sm c rest])
    show ?thesis
      by (rule that(3) [OF True col [unfolded Break eq(1) eq(2)] eq(3)])
  next
    case (Halt r')
    have eq: "pls1 = pls" "evs1 = evs" "r' = r"
      using assms True col Halt by (simp_all add: columns.simps [of rt nc h pw m sm c rest])
    show ?thesis
      by (rule that(4) [OF True col [unfolded Halt eq]])
  qed
qed

lemma columns_induct [case_names step]:
  assumes "\<And>c rest. (\<And>pls evs rest'. c < nc \<Longrightarrow>
              column rt h pw (m + (pw + m) * c) c sm m rest = (pls, evs, Continue rest') \<Longrightarrow>
              P (c + 1) rest') \<Longrightarrow> P c rest"
  shows "P c rest"
proof (induction "nat (nc - c)" arbitrary: c rest rule: less_induct)
  case less
  show ?case
  proof (rule assms)
    fix pls evs rest'
    assume "c < nc"
    then have "nat (nc - (c + 1)) < nat (nc - c)" by simp
    then show "P (c + 1) rest'" by (rule less)
  qed
qed

lemma maxColumns_panel:
  "maxColumns w minPanelWidth maxPanelWidth
     = Inr (if go_quot (w - 2) 52 = 0 then 1 else go_quot (w - 2) 52)"
  by (simp add: maxColumns_def window_defs Let_def)

lemma maxColumns_10: "maxColumns 10 minPanelWidth maxPanelWidth = Inr 1"
  by (simp add: maxColumns_def window_defs go_quot_def)

lemma body_height_zero_width: "als \<noteq> [] \<Longrightarrow> body_height 2 als bh = Inl DivideByZero"
  by (cases als) (auto simp add: minHeight_zero_width)

lemma body_height_grows: "2 < pw \<Longrightarrow> body_height pw als bh0 = Inr bh \<Longrightarrow> bh0 \<le> bh"
proof (induction als arbitrary: bh0)
  case Nil
  then show ?case by simp
next
  case (Cons p als)
  obtain an a where p: "p = (an, a)" by (cases p)
  from Cons.prems(2) obtain ah where
    ah: "minHeight (pw - 2) (Name a @ lit '': '' @ Cmd a) = Inr ah"
    and rec: "body_height pw als (bh0 + ah) = Inr bh"
    by (auto simp add: p split: sum.splits)
  from Cons.prems(1) ah have "0 \<le> ah" by (intro minHeight_nonneg [OF _ ah]) simp
  with Cons.IH [OF Cons.prems(1) rec] show ?case by simp
qed

lemma drawSection_Returned_wide: "drawSection rt x y w h sn = (evs, Returned) \<Longrightarrow> 4 \<le> w"
proof (rule ccontr)
  assume res: "drawSection rt x y w h sn = (evs, Returned)" and "\<not> 4 \<le> w"
  then have "truncate rt (Label sn) (w - 4) = Inl InvalidArgument"
    by (simp add: truncate_def)
  with res show False by (simp add: drawSection_def split: if_splits)
qed

lemma drawPanels_large:
  assumes "10 \<le> w" "10 \<le> h"
  obtains nc pw pls evs r where
    "nc = (if (w - 2) div 52 = 0 then 1 else (w - 2) div 52)" "1 \<le> nc"
    "pw = go_quot (w - (1 + nc) * m) nc"
    "maxColumns w minPanelWidth maxPanelWidth = Inr nc" "maxColumnWidth w nc m = Inr pw"
    "columns rt nc h pw m sm 0 (sort (map fst sm)) = (pls, evs, r)"
    "drawPanels rt w h sm m = \<lparr>placed = pls,
       drawn = EmitStr (w - 20) 0 White (lit ''Press [Q]uit to exit'') # evs, outcome = r\<rparr>"
proof -
  define nc where "nc = (if (w - 2) div 52 = 0 then 1 else (w - 2) div 52)"
  define pw where "pw = go_quot (w - (1 + nc) * m) nc"
  have q: "go_quot (w - 2) 52 = (w - 2) div 52"
    using assms by (simp add: go_quot_nonneg)
  have "0 \<le> (w - 2) div 52" using assms by simp
  then have nc1: "1 \<le> nc" by (simp add: nc_def)
  have mc: "maxColumns w minPanelWidth maxPanelWidth = Inr nc"
    by (simp add: maxColumns_panel q nc_def)
  have mw: "maxColumnWidth w nc m = Inr pw"
    using nc1 by (simp add: maxColumnWidth_def pw_def)
  obtain pls evs r where cols: "columns rt nc h pw m sm 0 (sort (map fst sm)) = (pls, evs, r)"
    by (cases "columns rt nc h pw m sm 0 (sort (map fst sm))") auto
  have msg: "len (lit ''Press [Q]uit to exit'') = 20"
    by (simp add: len_def lit_def utf8len_def)
  have "drawPanels rt w h sm m = \<lparr>placed = pls,
       drawn = EmitStr (w - 20) 0 White (lit ''Press [Q]uit to exit'') # evs, outcome = r\<rparr>"
    using assms mw cols msg
    by (simp add: drawPanels_def mc [unfolded window_defs] window_defs Let_def)
  with nc_def nc1 pw_def mc mw cols show ?thesis by (rule that)
qed

lemma drawPanels_placed_large:
  "placed (drawPanels rt w h sm m) \<noteq> [] \<Longrightarrow> 10 \<le> w \<and> 10 \<le> h"
  by (rule ccontr) (auto simp add: drawPanels_def window_defs)

section \<open>The layout pass: calls, events and labels\<close>

lemma column_calls:
  "column rt h pw px c sm py rest = (pls, evs, f) \<Longrightarrow>
   (\<forall>pl\<in>set (butlast pls). snd (section_call rt sm pl) = Returned) \<and>
   (pls \<noteq> [] \<and> snd (section_call rt sm (last pls)) = Failed InvalidArgument \<longrightarrow>
      f = Halt Returned \<and> (\<exists>evs'. evs = evs' @ [LogError InvalidArgument])) \<and>
   ((\<forall>e. f \<noteq> Halt e) \<longrightarrow> (\<forall>pl\<in>set pls. snd (section_call rt sm pl) = Returned))"
proof (induction rest arbitrary: py pls evs f)
  case Nil
  then show ?case by (auto split: if_splits)
next
  case (Cons sl rest)
  from Cons.prems show ?case
  proof (cases rule: column_Cons_cases)
    case (drawn bh evs1 pls' evs')
    note IH = Cons.IH [OF drawn(5)]
    have "section_call rt sm \<lparr>column_no = c, block_label = sl, origin_x = px, origin_y = py,
                width = pw, height = bh + 2\<rparr> = (evs1, Returned)"
      using drawn(4) by (simp add: section_call_def)
    with IH show ?thesis
      by (cases "pls' = []") (auto simp add: drawn(6,7))
  next
    case (abort bh evs1 r)
    have "section_call rt sm \<lparr>column_no = c, block_label = sl, origin_x = px, origin_y = py,
                width = pw, height = bh + 2\<rparr> = (evs1, r)"
      using abort(4) by (simp add: section_call_def)
    with abort show ?thesis by simp
  qed simp_all
qed

lemma columns_calls:
  "columns rt nc h pw m sm c rest = (pls, evs, r) \<Longrightarrow>
   (\<forall>pl\<in>set (butlast pls). snd (section_call rt sm pl) = Returned) \<and>
   (pls \<noteq> [] \<and> snd (section_call rt sm (last pls)) = Failed InvalidArgument \<longrightarrow>
      r = Returned \<and> (\<exists>evs'. evs = evs' @ [LogError InvalidArgument]))"
proof (induction c rest arbitrary: pls evs r rule: columns_induct [where rt = rt and nc = nc and h = h and pw = pw and m = m and sm = sm])
  case (step c rest)
  from step.prems show ?case
  proof (cases rule: columns_cases)
    case finished
    then show ?thesis by simp
  next
    case (onward pls1 evs1 rest' pls2 evs2)
    note IH = step.IH [OF onward(1,2,3)]
    note col = column_calls [OF onward(2)]
    from col have all1: "\<forall>pl\<in>set pls1. snd (section_call rt sm pl) = Returned" by simp
    show ?thesis
    proof (cases "pls2 = []")
      case True
      with all1 show ?thesis by (auto simp add: onward(4) dest: in_set_butlastD)
    next
      case False
      with all1 IH show ?thesis
        by (auto simp add: onward(4,5) butlast_append)
    qed
  next
    case break
    with column_calls [OF break(2)] show ?thesis by (auto dest: in_set_butlastD)
  next
    case halt
    with column_calls [OF halt(2)] show ?thesis by auto
  qed
qed

lemma column_events:
  "column rt h pw px c sm py rest = (pls, evs, f) \<Longrightarrow>
   evs = concat (map (\<lambda>pl. fst (section_call rt sm pl)) pls) @
         (if pls \<noteq> [] \<and> snd (section_call rt sm (last pls)) = Failed InvalidArgument
          then [LogError InvalidArgument] else [])"
proof (induction rest arbitrary: py pls evs f)
  case Nil
  then show ?case by (auto split: if_splits)
next
  case (Cons sl rest)
  from Cons.prems show ?case
  proof (cases rule: column_Cons_cases)
    case (drawn bh evs1 pls' evs')
    have call: "section_call rt sm \<lparr>column_no = c, block_label = sl, origin_x = px, origin_y = py,
                width = pw, height = bh + 2\<rparr> = (evs1, Returned)"
      using drawn(4) by (simp add: section_call_def)
    from Cons.IH [OF drawn(5)] call show ?thesis
      by (simp add: drawn(6,7))
  next
    case (error bh evs1)
    have "section_call rt sm \<lparr>column_no = c, block_label = sl, origin_x = px, origin_y = py,
                width = pw, height = bh + 2\<rparr> = (evs1, Failed InvalidArgument)"
      using error(4) by (simp add: section_call_def)
    with error show ?thesis by simp
  next
    case (abort bh evs1 r)
    have "section_call rt sm \<lparr>column_no = c, block_label = sl, origin_x = px, origin_y = py,
                width = pw, height = bh + 2\<rparr> = (evs1, r)"
      using abort(4) by (simp add: section_call_def)
    with abort show ?thesis by simp
  qed simp_all
qed

lemma columns_events:
  "columns rt nc h pw m sm c rest = (pls, evs, r) \<Longrightarrow>
   evs = concat (map (\<lambda>pl. fst (section_call rt sm pl)) pls) @
         (if pls \<noteq> [] \<and> snd (section_call rt sm (last pls)) = Failed InvalidArgument
          then [LogError InvalidArgument] else [])"
proof (induction c rest arbitrary: pls evs r
    rule: columns_induct [where rt = rt and nc = nc and h = h and pw = pw and m = m and sm = sm])
  case (step c rest)
  from step.prems show ?case
  proof (cases rule: columns_cases)
    case finished
    then show ?thesis by simp
  next
    case (onward pls1 evs1 rest' pls2 evs2)
    note IH = step.IH [OF onward(1,2,3)]
    from column_calls [OF onward(2)]
    have all1: "\<forall>pl\<in>set pls1. snd (section_call rt sm pl) = Returned" by simp
    then have "pls1 \<noteq> [] \<longrightarrow> snd (section_call rt sm (last pls1)) = Returned" by simp
    with column_events [OF onward(2)]
    have e1: "evs1 = concat (map (\<lambda>pl. fst (section_call rt sm pl)) pls1)" by auto
    show ?thesis
    proof (cases "pls2 = []")
      case True
      with IH have "evs2 = []" by simp
      with True e1 all1 show ?thesis by (auto simp add: onward(4,5))
    next
      case False
      with IH e1 show ?thesis by (simp add: onward(4,5))
    qed
  next
    case break
    from column_events [OF break(2)] show ?thesis .
  next
    case halt
    from column_events [OF halt(2)] show ?thesis .
  qed
qed

lemma drawPanels_events:
  assumes "10 \<le> w" "10 \<le> h"
  shows "drawn (drawPanels rt w h sm m) =
     EmitStr (w - 20) 0 White (lit ''Press [Q]uit to exit'') #
     concat (map (\<lambda>pl. fst (section_call rt sm pl)) (placed (drawPanels rt w h sm m))) @
     (if placed (drawPanels rt w h sm m) \<noteq> [] \<and>
         snd (section_call rt sm (last (placed (drawPanels rt w h sm m)))) = Failed InvalidArgument
      then [LogError InvalidArgument] else [])"
  using assms
proof (rule drawPanels_large [where rt = rt and sm = sm and m = m])
  fix nc pw pls evs r
  assume cols: "columns rt nc h pw m sm 0 (sort (map fst sm)) = (pls, evs, r)"
    and dp: "drawPanels rt w h sm m = \<lparr>placed = pls,
       drawn = EmitStr (w - 20) 0 White (lit ''Press [Q]uit to exit'') # evs, outcome = r\<rparr>"
  from columns_events [OF cols] show ?thesis by (simp add: dp)
qed

lemma column_labels:
  "column rt h pw px c sm py rest = (pls, evs, f) \<Longrightarrow>
   map block_label pls = take (length pls) rest \<and>
   (\<forall>rest'. f = Continue rest' \<longrightarrow> rest' = drop (length pls) rest)"
proof (induction rest arbitrary: py pls evs f)
  case Nil
  then show ?case by (auto split: if_splits)
next
  case (Cons sl rest)
  from Cons.prems show ?case
  proof (cases rule: column_Cons_cases)
    case (drawn bh evs1 pls' evs')
    from Cons.IH [OF drawn(5)] show ?thesis by (simp add: drawn(6))
  qed simp_all
qed

lemma columns_labels:
  "columns rt nc h pw m sm c rest = (pls, evs, r) \<Longrightarrow>
   map block_label pls = take (length pls) rest"
proof (induction c rest arbitrary: pls evs r
    rule: columns_induct [where rt = rt and nc = nc and h = h and pw = pw and m = m and sm = sm])
  case (step c rest)
  from step.prems show ?case
  proof (cases rule: columns_cases)
    case finished
    then show ?thesis by simp
  next
    case (onward pls1 evs1 rest' pls2 evs2)
    from column_labels [OF onward(2)]
    have l1: "map block_label pls1 = take (length pls1) rest"
      and r': "rest' = drop (length pls1) rest" by simp_all
    from step.IH [OF onward(1,2,3)]
    have l2: "map block_label pls2 = take (length pls2) (drop (length pls1) rest)"
      by (simp add: r')
    show ?thesis by (simp add: onward(4) l1 l2 take_add)
  next
    case break
    from column_labels [OF break(2)] show ?thesis by simp
  next
    case halt
    from column_labels [OF halt(2)] show ?thesis by simp
  qed
qed

lemma packing_labels_prefix:
  "map block_label (placed (drawPanels rt w h sm m))
     = take (length (placed (drawPanels rt w h sm m))) (sort (map fst sm))"
proof (cases "10 \<le> w \<and> 10 \<le> h")
  case False
  then have "drawPanels rt w h sm m = \<lparr>placed = [], drawn = [], outcome = Returned\<rparr>"
    by (auto simp add: drawPanels_def window_defs)
  then show ?thesis by simp
next
  case True
  then have "10 \<le> w" "10 \<le> h" by simp_all
  then show ?thesis
  proof (rule drawPanels_large [where sm = sm and m = m])
    fix nc pw pls evs r
    assume cols: "columns rt nc h pw m sm 0 (sort (map fst sm)) = (pls, evs, r)"
      and dp: "drawPanels rt w h sm m = \<lparr>placed = pls,
       drawn = EmitStr (w - 20) 0 White (lit ''Press [Q]uit to exit'') # evs, outcome = r\<rparr>"
    from columns_labels [OF cols] show ?thesis by (simp add: dp)
  qed
qed

section \<open>The layout pass: geometry\<close>

lemma column_fits:
  fixes w m nc c :: int
  assumes w: "10 \<le> w" and m: "0 \<le> m"
    and nc: "nc = (if (w - 2) div 52 = 0 then 1 else (w - 2) div 52)"
    and c: "0 \<le> c" "c < nc"
  shows "m + (go_quot (w - (1 + nc) * m) nc + m) * c + go_quot (w - (1 + nc) * m) nc \<le> w"
proof -
  define N where "N = w - (1 + nc) * m"
  define pw where "pw = go_quot N nc"
  have nc1: "1 \<le> nc" using c by simp
  have goal_eq: "m + (pw + m) * c + pw = (c + 1) * (pw + m)" by (simp add: algebra_simps)
  have bound: "(c + 1) * (pw + m) \<le> w"
  proof (cases "pw + m \<le> 0")
    case True
    have "(c + 1) * (pw + m) \<le> 0"
      using c True by (simp add: mult_nonneg_nonpos)
    then show ?thesis using w by simp
  next
    case False
    then have pos: "0 \<le> pw + m" by simp
    have "c + 1 \<le> nc" using c by simp
    then have le_nc: "(c + 1) * (pw + m) \<le> nc * (pw + m)"
      using pos by (rule mult_right_mono)
    show ?thesis
    proof (cases "0 \<le> N")
      case True
      then have "pw = N div nc" using nc1 by (simp add: pw_def go_quot_nonneg)
      moreover have "0 \<le> N mod nc" using nc1 by simp
      then have "nc * (N div nc) \<le> N"
        using mult_div_mod_eq [of nc N] by linarith
      ultimately have "nc * pw \<le> N" by simp
      then have "nc * (pw + m) \<le> N + nc * m" by (simp add: algebra_simps)
      also have "\<dots> = w - m" by (simp add: N_def algebra_simps)
      finally show ?thesis using le_nc m by simp
    next
      case False
      then have neg: "N < 0" by simp
      then have pwK: "pw = - ((- N) div nc)" using nc1 by (simp add: pw_def go_quot_neg)
      show ?thesis
      proof (cases "nc = 1")
        case True
        then have "pw + m = w - m" by (simp add: pwK N_def)
        then show ?thesis using le_nc True m by simp
      next
        case False
        with nc have q: "nc = (w - 2) div 52" by (simp split: if_splits)
        have lo: "52 * nc \<le> w - 2" unfolding q by simp
        have "(w - 2) mod 52 < 52" by simp
        then have hi: "w - 2 < 52 * nc + 52"
          unfolding q using div_mult_mod_eq [of "w - 2" 52] by linarith
        have small: "pw + m \<le> 52"
        proof (cases "m \<le> 52")
          case True
          have "0 \<le> (- N) div nc" using neg nc1 by (simp add: pos_imp_zdiv_nonneg_iff)
          then show ?thesis using True by (simp add: pwK)
        next
          case False
          then have "w \<le> m + 52 * nc" using hi by simp
          then have "nc * (m - 52) \<le> - N" by (simp add: N_def algebra_simps)
          then have "(nc * (m - 52)) div nc \<le> (- N) div nc" using nc1 by (intro zdiv_mono1) simp_all
          then have "m - 52 \<le> (- N) div nc" using nc1 by simp
          then show ?thesis by (simp add: pwK)
        qed
        have "nc * (pw + m) \<le> nc * 52" using small nc1 by (intro mult_left_mono) simp_all
        then show ?thesis using le_nc lo by simp
      qed
    qed
  qed
  show ?thesis using bound goal_eq by (simp add: pw_def N_def)
qed

lemma column_geometry:
  "column rt h pw px c sm py rest = (pls, evs, f) \<Longrightarrow> pl \<in> set pls \<Longrightarrow>
   column_no pl = c \<and> origin_x pl = px \<and> width pl = pw \<and> origin_y pl + height pl \<le> h \<and>
   (\<exists>bh. body_height pw (Aliases (section_at sm (block_label pl))) 0 = Inr bh \<and>
         height pl = bh + 2)"
proof (induction rest arbitrary: py pls evs f)
  case Nil
  then show ?case by (auto split: if_splits)
next
  case (Cons sl rest)
  from Cons.prems(1) show ?case
  proof (cases rule: column_Cons_cases)
    case (drawn bh evs1 pls' evs')
    show ?thesis
    proof (cases "pl \<in> set pls'")
      case True
      then show ?thesis by (rule Cons.IH [OF drawn(5)])
    next
      case False
      with Cons.prems(2) drawn(6) have "pl = \<lparr>column_no = c, block_label = sl, origin_x = px,
          origin_y = py, width = pw, height = bh + 2\<rparr>" by simp
      with drawn(2,3) show ?thesis by simp
    qed
  next
    case (error bh evs1)
    with Cons.prems(2) show ?thesis by simp
  next
    case (abort bh evs1 r)
    with Cons.prems(2) show ?thesis by simp
  qed (use Cons.prems(2) in simp_all)
qed

lemma columns_geometry:
  "columns rt nc h pw m sm c rest = (pls, evs, r) \<Longrightarrow> pl \<in> set pls \<Longrightarrow>
   c \<le> column_no pl \<and> column_no pl < nc \<and>
   origin_x pl = m + (pw + m) * column_no pl \<and> width pl = pw \<and>
   origin_y pl + height pl \<le> h \<and>
   (\<exists>bh. body_height pw (Aliases (section_at sm (block_label pl))) 0 = Inr bh \<and>
         height pl = bh + 2)"
proof (induction c rest arbitrary: pls evs r
    rule: columns_induct [where rt = rt and nc = nc and h = h and pw = pw and m = m and sm = sm])
  case (step c rest)
  from step.prems(1) show ?case
  proof (cases rule: columns_cases)
    case finished
    with step.prems(2) show ?thesis by simp
  next
    case (onward pls1 evs1 rest' pls2 evs2)
    show ?thesis
    proof (cases "pl \<in> set pls1")
      case True
      from column_geometry [OF onward(2) True] onward(1) show ?thesis by simp
    next
      case False
      with step.prems(2) onward(4) have "pl \<in> set pls2" by simp
      from step.IH [OF onward(1,2,3) this] show ?thesis by simp
    qed
  next
    case break
    from column_geometry [OF break(2) step.prems(2)] break(1) show ?thesis by simp
  next
    case halt
    from column_geometry [OF halt(2) step.prems(2)] halt(1) show ?thesis by simp
  qed
qed

lemma column_origin:
  "column rt h pw px c sm py rest = (pls, evs, f) \<Longrightarrow> pl \<in> set pls \<Longrightarrow>
   py \<le> origin_y pl \<and> origin_y pl < h"
proof (induction rest arbitrary: py pls evs f)
  case Nil
  then show ?case by (auto split: if_splits)
next
  case (Cons sl rest)
  from Cons.prems(1) show ?case
  proof (cases rule: column_Cons_cases)
    case (drawn bh evs1 pls' evs')
    show ?thesis
    proof (cases "pl \<in> set pls'")
      case True
      have "4 \<le> pw" using drawn(4) by (rule drawSection_Returned_wide)
      then have "0 \<le> bh" using body_height_grows [OF _ drawn(2)] by simp
      with Cons.IH [OF drawn(5) True] show ?thesis by simp
    next
      case False
      with Cons.prems(2) drawn(6) have "pl = \<lparr>column_no = c, block_label = sl, origin_x = px,
          origin_y = py, width = pw, height = bh + 2\<rparr>" by simp
      with drawn(1) show ?thesis by simp
    qed
  next
    case (error bh evs1)
    with Cons.prems(2) show ?thesis by simp
  next
    case (abort bh evs1 r)
    with Cons.prems(2) show ?thesis by simp
  qed (use Cons.prems(2) in simp_all)
qed

lemma columns_origin:
  "columns rt nc h pw m sm c rest = (pls, evs, r) \<Longrightarrow> pl \<in> set pls \<Longrightarrow>
   m \<le> origin_y pl \<and> origin_y pl < h"
proof (induction c rest arbitrary: pls evs r
    rule: columns_induct [where rt = rt and nc = nc and h = h and pw = pw and m = m and sm = sm])
  case (step c rest)
  from step.prems(1) show ?case
  proof (cases rule: columns_cases)
    case finished
    with step.prems(2) show ?thesis by simp
  next
    case (onward pls1 evs1 rest' pls2 evs2)
    show ?thesis
    proof (cases "pl \<in> set pls1")
      case True
      then show ?thesis by (rule column_origin [OF onward(2)])
    next
      case False
      with step.prems(2) onward(4) have "pl \<in> set pls2" by simp
      then show ?thesis by (rule step.IH [OF onward(1,2,3)])
    qed
  next
    case break
    show ?thesis by (rule column_origin [OF break(2) step.prems(2)])
  next
    case halt
    show ?thesis by (rule column_origin [OF halt(2) step.prems(2)])
  qed
qed

lemma column_stack:
  "column rt h pw px c sm py rest = (pls, evs, f) \<Longrightarrow>
   successively (follows m h) pls \<and>
   (pls \<noteq> [] \<longrightarrow> origin_y (hd pls) = py) \<and>
   (\<forall>q rest' bh. f = Continue (q # rest') \<longrightarrow>
      body_height pw (Aliases (section_at sm q)) 0 = Inr bh \<longrightarrow>
      h \<le> (if pls = [] then py else origin_y (last pls) + height (last pls)) \<or>
      h < (if pls = [] then py else origin_y (last pls) + height (last pls)) + (bh + 2))"
proof (induction rest arbitrary: py pls evs f)
  case Nil
  then show ?case by (auto split: if_splits)
next
  case (Cons sl rest)
  from Cons.prems show ?case
  proof (cases rule: column_Cons_cases)
    case full
    then show ?thesis by simp
  next
    case (panic e)
    then show ?thesis by simp
  next
    case (skip bh)
    then show ?thesis by auto
  next
    case (drawn bh evs1 pls' evs')
    note IH = Cons.IH [OF drawn(5)]
    show ?thesis
    proof (cases "pls' = []")
      case True
      with IH show ?thesis by (simp add: drawn(6) ac_simps)
    next
      case False
      then have "hd pls' \<in> set pls'" by simp
      from column_geometry [OF drawn(5) this] have "column_no (hd pls') = c" by simp
      with IH False show ?thesis
        by (simp add: drawn(6) successively_Cons follows_def ac_simps)
    qed
  next
    case (error bh evs1)
    then show ?thesis by simp
  next
    case (abort bh evs1 r)
    then show ?thesis by simp
  qed
qed

lemma column_no_progress:
  assumes "column rt h pw px c sm m rest = ([], evs, Continue rest')"
  shows "column rt h pw px' c' sm m rest = ([], [], Continue rest)"
proof (cases rest)
  case Nil
  with assms show ?thesis by (simp split: if_splits)
next
  case (Cons sl rest0)
  from assms [unfolded Cons] show ?thesis
  proof (cases rule: column_Cons_cases)
    case full
    then show ?thesis by (simp add: Cons column_Cons)
  next
    case (skip bh)
    then show ?thesis by (simp add: Cons column_Cons)
  qed simp_all
qed

lemma columns_no_progress:
  assumes "\<And>px c. column rt h pw px c sm m rest = ([], [], Continue rest)"
  shows "columns rt nc h pw m sm c rest = ([], [], Returned)"
proof (induction "nat (nc - c)" arbitrary: c rule: less_induct)
  case less
  show ?case
  proof (cases "c < nc")
    case False
    then show ?thesis by (simp add: columns.simps [of rt nc h pw m sm c rest])
  next
    case True
    then have "nat (nc - (c + 1)) < nat (nc - c)" by simp
    then have "columns rt nc h pw m sm (c + 1) rest = ([], [], Returned)" by (rule less)
    with True show ?thesis by (simp add: columns.simps [of rt nc h pw m sm c rest] assms)
  qed
qed

lemma columns_stack:
  "columns rt nc h pw m sm c rest = (pls, evs, r) \<Longrightarrow>
   successively (follows m h) pls \<and>
   (pls \<noteq> [] \<longrightarrow> column_no (hd pls) = c \<and> origin_y (hd pls) = m)"
proof (induction c rest arbitrary: pls evs r
    rule: columns_induct [where rt = rt and nc = nc and h = h and pw = pw and m = m and sm = sm])
  case (step c rest)
  from step.prems show ?case
  proof (cases rule: columns_cases)
    case finished
    then show ?thesis by simp
  next
    case (onward pls1 evs1 rest' pls2 evs2)
    note IH = step.IH [OF onward(1,2,3)]
    show ?thesis
    proof (cases "pls1 = []")
      case True
      from onward(2) [unfolded True]
      have stuck: "column rt h pw px' c' sm m rest = ([], [], Continue rest)" for px' c'
        by (rule column_no_progress)
      from onward(2) [unfolded True] stuck [of "m + (pw + m) * c" c] have "rest' = rest" by simp
      with columns_no_progress [OF stuck, of nc "c + 1"] onward(3)
      have "pls2 = []" by simp
      with True show ?thesis by (simp add: onward(4))
    next
      case False
      note st = column_stack [OF onward(2), of m]
      from False have "hd pls1 \<in> set pls1" by simp
      from column_geometry [OF onward(2) this] have hd1: "column_no (hd pls1) = c" by simp
      show ?thesis
      proof (cases "pls2 = []")
        case True
        with False st hd1 show ?thesis by (simp add: onward(4))
      next
        case nonempty: False
        then have in2: "hd pls2 \<in> set pls2" by simp
        from columns_geometry [OF onward(3) in2] obtain bh where
          bh: "body_height pw (Aliases (section_at sm (block_label (hd pls2)))) 0 = Inr bh"
          and hq: "height (hd pls2) = bh + 2" by auto
        obtain p ps where pls2: "pls2 = p # ps" using nonempty by (cases pls2) auto
        from columns_labels [OF onward(3)]
        have "block_label p # map block_label ps = take (Suc (length ps)) rest'"
          by (simp add: pls2)
        then obtain rest'' where rest': "rest' = block_label (hd pls2) # rest''"
          by (cases rest') (auto simp add: pls2)
        from st have "\<forall>q rest'' bh. Continue rest' = Continue (q # rest'') \<longrightarrow>
            body_height pw (Aliases (section_at sm q)) 0 = Inr bh \<longrightarrow>
            h \<le> (if pls1 = [] then m else origin_y (last pls1) + height (last pls1)) \<or>
            h < (if pls1 = [] then m else origin_y (last pls1) + height (last pls1)) + (bh + 2)"
          by (elim conjE)
        from this [rule_format, of "block_label (hd pls2)" rest'' bh] rest' bh False
        have full: "h \<le> origin_y (last pls1) + height (last pls1) \<or>
            h < origin_y (last pls1) + height (last pls1) + (bh + 2)"
          by simp
        from False have "last pls1 \<in> set pls1" by simp
        from column_geometry [OF onward(2) this] have "column_no (last pls1) = c" by simp
        with IH nonempty full hq have "follows m h (last pls1) (hd pls2)"
          by (simp add: follows_def)
        with False nonempty st IH hd1 show ?thesis
          by (simp add: onward(4) successively_append_iff)
      qed
    qed
  next
    case break
    from column_stack [OF break(2), of m] column_geometry [OF break(2), of "hd pls"]
    show ?thesis by simp
  next
    case halt
    from column_stack [OF halt(2), of m] column_geometry [OF halt(2), of "hd pls"]
    show ?thesis by simp
  qed
qed

lemma column_end:
  "column rt h pw px c sm py rest = (pls, evs, f) \<Longrightarrow>
   (f = Break \<longrightarrow> length pls = length rest) \<and>
   (\<forall>rest'. f = Continue rest' \<longrightarrow>
      (rest' = [] \<longrightarrow> length pls = length rest) \<and>
      (rest' \<noteq> [] \<longrightarrow>
         no_room h (if pls = [] then py else origin_y (last pls) + height (last pls))
           (body_height pw (Aliases (section_at sm (hd rest'))) 0))) \<and>
   (f = Halt Returned \<longrightarrow>
      pls \<noteq> [] \<and> snd (section_call rt sm (last pls)) = Failed InvalidArgument)"
proof (induction rest arbitrary: py pls evs f)
  case Nil
  then show ?case by (auto split: if_splits)
next
  case (Cons sl rest)
  from Cons.prems show ?case
  proof (cases rule: column_Cons_cases)
    case full
    then show ?thesis by (simp add: no_room_def)
  next
    case (panic e)
    then show ?thesis by simp
  next
    case (skip bh)
    then show ?thesis by (simp add: no_room_def)
  next
    case (drawn bh evs1 pls' evs')
    from Cons.IH [OF drawn(5)] show ?thesis
      by (cases "pls' = []") (simp_all add: drawn(6) ac_simps)
  next
    case (error bh evs1)
    have "section_call rt sm \<lparr>column_no = c, block_label = sl, origin_x = px, origin_y = py,
                width = pw, height = bh + 2\<rparr> = (evs1, Failed InvalidArgument)"
      using error(4) by (simp add: section_call_def)
    with error show ?thesis by simp
  next
    case (abort bh evs1 r)
    then show ?thesis by simp
  qed
qed

lemma columns_end:
  "c < nc \<Longrightarrow> columns rt nc h pw m sm c rest = (pls, evs, Returned) \<Longrightarrow>
   \<forall>pl\<in>set pls. snd (section_call rt sm pl) = Returned \<Longrightarrow>
   length pls = length rest \<or>
   no_room h m (body_height pw (Aliases (section_at sm (rest ! length pls))) 0) \<or>
   (pls \<noteq> [] \<and> column_no (last pls) = nc - 1 \<and>
    no_room h (origin_y (last pls) + height (last pls))
      (body_height pw (Aliases (section_at sm (rest ! length pls))) 0))"
proof (induction c rest arbitrary: pls evs
    rule: columns_induct [where rt = rt and nc = nc and h = h and pw = pw and m = m and sm = sm])
  case (step c rest)
  from step.prems(2) show ?case
  proof (cases rule: columns_cases)
    case finished
    with step.prems(1) show ?thesis by simp
  next
    case (onward pls1 evs1 rest' pls2 evs2)
    from column_labels [OF onward(2)] have r': "rest' = drop (length pls1) rest"
      and l1: "map block_label pls1 = take (length pls1) rest" by simp_all
    from arg_cong [OF l1, of length] have len1: "length pls1 \<le> length rest" by simp
    note ce = column_end [OF onward(2)]
    show ?thesis
    proof (cases "rest' = []")
      case True
      with ce have "length pls1 = length rest" by simp
      moreover from columns_labels [OF onward(3)] True have "pls2 = []" by simp
      ultimately show ?thesis by (simp add: onward(4))
    next
      case False
      with r' have lt: "length pls1 < length rest" by simp
      then have hd: "hd rest' = rest ! length pls1"
        by (simp add: r' hd_drop_conv_nth)
      from ce False hd have nr: "no_room h
          (if pls1 = [] then m else origin_y (last pls1) + height (last pls1))
          (body_height pw (Aliases (section_at sm (rest ! length pls1))) 0)" by simp
      show ?thesis
      proof (cases "pls1 = []")
        case True
        from onward(2) [unfolded True]
        have stuck: "column rt h pw px' c' sm m rest = ([], [], Continue rest)" for px' c'
          by (rule column_no_progress)
        from onward(2) [unfolded True] stuck [of "m + (pw + m) * c" c] have "rest' = rest" by simp
        with columns_no_progress [OF stuck, of nc "c + 1"] onward(3)
        have "pls2 = []" by simp
        with True nr show ?thesis by (simp add: onward(4))
      next
        case nonempty: False
        then have "last pls1 \<in> set pls1" by simp
        from column_geometry [OF onward(2) this] have col1: "column_no (last pls1) = c" by simp
        show ?thesis
        proof (cases "c + 1 < nc")
          case True
          have ok2: "\<forall>pl\<in>set pls2. snd (section_call rt sm pl) = Returned"
            using step.prems(3) by (simp add: onward(4))
          from arg_cong [OF columns_labels [OF onward(3)], of length]
          have len2: "length pls2 \<le> length rest'" by simp
          have nth: "rest' ! length pls2 = rest ! (length pls1 + length pls2)"
            using len1 by (simp add: r')
          have lens: "length rest' = length rest - length pls1" by (simp add: r')
          from step.IH [OF onward(1,2) True onward(3) ok2]
          consider "length pls2 = length rest'"
            | "no_room h m (body_height pw (Aliases (section_at sm (rest' ! length pls2))) 0)"
            | "pls2 \<noteq> []" "column_no (last pls2) = nc - 1"
              "no_room h (origin_y (last pls2) + height (last pls2))
               (body_height pw (Aliases (section_at sm (rest' ! length pls2))) 0)"
            by blast
          then show ?thesis
          proof cases
            case 1
            with lens len1 have "length pls = length rest" by (simp add: onward(4))
            then show ?thesis by simp
          next
            case 2
            then show ?thesis by (simp add: onward(4) nth)
          next
            case 3
            then show ?thesis by (simp add: onward(4) nth)
          qed
        next
          case False
          then have "columns rt nc h pw m sm (c + 1) rest' = ([], [], Returned)"
            by (simp add: columns.simps [of rt nc h pw m sm "c + 1" rest'])
          with onward(3) have "pls2 = []" by simp
          moreover from False onward(1) have "c = nc - 1" by simp
          ultimately show ?thesis using nonempty nr col1 by (simp add: onward(4))
        qed
      qed
    qed
  next
    case break
    from column_end [OF break(2)] show ?thesis by simp
  next
    case halt
    from column_end [OF halt(2)] step.prems(3) show ?thesis by auto
  qed
qed

lemma drawPanels_end:
  assumes "10 \<le> w" "10 \<le> h" "outcome (drawPanels rt w h sm m) = Returned"
    and "\<forall>pl\<in>set (placed (drawPanels rt w h sm m)). snd (section_call rt sm pl) = Returned"
  shows "\<exists>nc pw. maxColumns w minPanelWidth maxPanelWidth = Inr nc \<and>
           maxColumnWidth w nc m = Inr pw \<and>
           (length (placed (drawPanels rt w h sm m)) = length sm \<or>
            no_room h m (body_height pw (Aliases (section_at sm
              (sort (map fst sm) ! length (placed (drawPanels rt w h sm m))))) 0) \<or>
            (placed (drawPanels rt w h sm m) \<noteq> [] \<and>
             column_no (last (placed (drawPanels rt w h sm m))) = nc - 1 \<and>
             no_room h (origin_y (last (placed (drawPanels rt w h sm m))) +
                        height (last (placed (drawPanels rt w h sm m))))
               (body_height pw (Aliases (section_at sm
                 (sort (map fst sm) ! length (placed (drawPanels rt w h sm m))))) 0)))"
  using assms(1,2)
proof (rule drawPanels_large [where rt = rt and sm = sm and m = m])
  fix nc pw pls evs r
  assume nc1: "1 \<le> nc"
    and mc: "maxColumns w minPanelWidth maxPanelWidth = Inr nc"
    and mw: "maxColumnWidth w nc m = Inr pw"
    and cols: "columns rt nc h pw m sm 0 (sort (map fst sm)) = (pls, evs, r)"
    and dp: "drawPanels rt w h sm m = \<lparr>placed = pls,
       drawn = EmitStr (w - 20) 0 White (lit ''Press [Q]uit to exit'') # evs, outcome = r\<rparr>"
  from assms(3) dp have r: "r = Returned" by simp
  from assms(4) dp have ok: "\<forall>pl\<in>set pls. snd (section_call rt sm pl) = Returned" by simp
  from nc1 have "0 < nc" by simp
  from columns_end [OF this cols [unfolded r] ok] mc mw show ?thesis
    by (simp add: dp)
qed

section \<open>The layout pass: guards and panics\<close>

text \<open>
  C7. When the window is narrower than 10 columns or lower than 10 rows, the
  pass places nothing, makes no drawing call, logs nothing and returns
  normally, whatever the sections and the margin.
\<close>

theorem drawPanels_small_window:
  "w < 10 \<or> h < 10 \<Longrightarrow> drawPanels rt w h sm m = \<lparr>placed = [], drawn = [], outcome = Returned\<rparr>"
  by (auto simp add: drawPanels_def window_defs)

theorem drawPanels_small_window_witness:
  "((5::int) < 10 \<or> (24::int) < 10) \<and>
   drawPanels rounding_runtime 5 24
     [(lit ''git'', \<lparr>Label = lit ''git'',
         Aliases = [(lit ''gs'', \<lparr>Name = lit ''gs'', Cmd = lit ''git status'', Desc = []\<rparr>)]\<rparr>)] 2
     = \<lparr>placed = [], drawn = [], outcome = Returned\<rparr>"
  using drawPanels_small_window [of 5 24 rounding_runtime
     "[(lit ''git'', \<lparr>Label = lit ''git'',
         Aliases = [(lit ''gs'', \<lparr>Name = lit ''gs'', Cmd = lit ''git status'', Desc = []\<rparr>)]\<rparr>)]" 2]
  by simp

text \<open>
  C10. \<open>minHeight\<close> divides by its width unguarded, so width 0 is a
  divide-by-zero panic, and the pass reaches it: in a window 10 columns wide
  with margin 4 there is one column of width \<open>(10 - 2 * 4) / 1 = 2\<close>, the
  interior width is \<open>2 - 2 = 0\<close>, and measuring the first section that has an
  alias panics, after the help line and before anything is placed.
\<close>

theorem minHeight_zero_width_reachable:
  "minHeight 0 t = Inl DivideByZero \<and>
   maxColumns 10 minPanelWidth maxPanelWidth = Inr 1 \<and>
   maxColumnWidth 10 1 4 = Inr 2 \<and>
   (10 \<le> h \<longrightarrow> Aliases s \<noteq> [] \<longrightarrow>
      placed (drawPanels rt 10 h [(l, s)] 4) = [] \<and>
      outcome (drawPanels rt 10 h [(l, s)] 4) = Failed DivideByZero)"
proof -
  have c: "maxColumnWidth 10 1 4 = Inr 2"
    by (simp add: maxColumnWidth_def go_quot_def)
  have "placed (drawPanels rt 10 h [(l, s)] 4) = [] \<and>
        outcome (drawPanels rt 10 h [(l, s)] 4) = Failed DivideByZero"
    if "10 \<le> h" "Aliases s \<noteq> []"
    using that body_height_zero_width [of "Aliases s" 0]
    by (simp add: drawPanels_def maxColumns_10 [unfolded window_defs] c window_defs Let_def
        columns.simps [of rt 1 h 2 4 _ 0] section_at_def column_Cons)
  with c show ?thesis
    by (simp add: minHeight_zero_width maxColumns_10)
qed

theorem minHeight_zero_width_reachable_witness:
  "(10::int) \<le> 10 \<and>
   Aliases \<lparr>Label = lit ''git'',
      Aliases = [(lit ''gs'', \<lparr>Name = lit ''gs'', Cmd = lit ''git status'', Desc = []\<rparr>)]\<rparr> \<noteq> [] \<and>
   outcome (drawPanels rounding_runtime 10 10
     [(lit ''git'', \<lparr>Label = lit ''git'',
         Aliases = [(lit ''gs'', \<lparr>Name = lit ''gs'', Cmd = lit ''git status'', Desc = []\<rparr>)]\<rparr>)] 4)
     = Failed DivideByZero"
  using minHeight_zero_width_reachable [where t = "[]" and h = 10 and rt = rounding_runtime
     and s = "\<lparr>Label = lit ''git'',
         Aliases = [(lit ''gs'', \<lparr>Name = lit ''gs'', Cmd = lit ''git status'', Desc = []\<rparr>)]\<rparr>"
     and l = "lit ''git''"]
  by simp

section \<open>The layout pass: a failing block\<close>

text \<open>
  C3, as the code has it. Every block of a pass but the last one called was
  drawn without an error. When drawing a block returns the
  \<open>InvalidArgument\<close> error, that block is the last one the pass calls
  \<open>drawSection\<close> for: the blocks called are the sorted labels up to and
  including it, the pass returns, and its trace is the help line, the
  drawing of the blocks called, and the logged error as the last event.
  No later block is attempted.
\<close>

theorem drawPanels_error_ends_pass:
  "(\<forall>pl\<in>set (butlast (placed (drawPanels rt w h sm m))). snd (section_call rt sm pl) = Returned) \<and>
   map block_label (placed (drawPanels rt w h sm m))
     = take (length (placed (drawPanels rt w h sm m))) (sort (map fst sm)) \<and>
   (placed (drawPanels rt w h sm m) \<noteq> [] \<and>
    snd (section_call rt sm (last (placed (drawPanels rt w h sm m)))) = Failed InvalidArgument \<longrightarrow>
      outcome (drawPanels rt w h sm m) = Returned \<and>
      drawn (drawPanels rt w h sm m) =
        EmitStr (w - 20) 0 White (lit ''Press [Q]uit to exit'') #
        concat (map (\<lambda>pl. fst (section_call rt sm pl)) (placed (drawPanels rt w h sm m))) @
        [LogError InvalidArgument])"
proof (cases "10 \<le> w \<and> 10 \<le> h")
  case False
  then have "drawPanels rt w h sm m = \<lparr>placed = [], drawn = [], outcome = Returned\<rparr>"
    by (auto simp add: drawPanels_def window_defs)
  then show ?thesis by simp
next
  case True
  then have big: "10 \<le> w" "10 \<le> h" by simp_all
  note ev = drawPanels_events [OF big, of rt sm m]
  note lb = packing_labels_prefix [of rt w h sm m]
  from big show ?thesis
  proof (rule drawPanels_large [where rt = rt and sm = sm and m = m])
    fix nc pw pls evs r
    assume cols: "columns rt nc h pw m sm 0 (sort (map fst sm)) = (pls, evs, r)"
      and dp: "drawPanels rt w h sm m = \<lparr>placed = pls,
       drawn = EmitStr (w - 20) 0 White (lit ''Press [Q]uit to exit'') # evs, outcome = r\<rparr>"
    from columns_calls [OF cols] have
      "(\<forall>pl\<in>set (butlast (placed (drawPanels rt w h sm m))). snd (section_call rt sm pl) = Returned)"
      "placed (drawPanels rt w h sm m) \<noteq> [] \<and>
       snd (section_call rt sm (last (placed (drawPanels rt w h sm m)))) = Failed InvalidArgument \<longrightarrow>
         outcome (drawPanels rt w h sm m) = Returned"
      by (simp_all add: dp)
    with ev lb show ?thesis by simp
  qed
qed

theorem drawPanels_error_ends_pass_witness:
  "sort (map fst
     [(lit ''c'', \<lparr>Label = lit ''c'',
         Aliases = [(lit ''l'', \<lparr>Name = lit ''l'', Cmd = lit ''ls'', Desc = []\<rparr>)]\<rparr>),
      (lit ''a'', \<lparr>Label = lit ''a'',
         Aliases = [(lit ''l'', \<lparr>Name = lit ''l'', Cmd = lit ''ls'', Desc = []\<rparr>)]\<rparr>),
      (lit ''b'', \<lparr>Label = lit ''b'',
         Aliases = [(lit ''l'', \<lparr>Name = lit ''l'', Cmd = lit ''ls'', Desc = []\<rparr>)]\<rparr>)]) = [lit ''a'', lit ''b'', lit ''c''] \<and>
   map block_label (placed (drawPanels rounding_runtime 11 60
     [(lit ''c'', \<lparr>Label = lit ''c'',
         Aliases = [(lit ''l'', \<lparr>Name = lit ''l'', Cmd = lit ''ls'', Desc = []\<rparr>)]\<rparr>),
      (lit ''a'', \<lparr>Label = lit ''a'',
         Aliases = [(lit ''l'', \<lparr>Name = lit ''l'', Cmd = lit ''ls'', Desc = []\<rparr>)]\<rparr>),
      (lit ''b'', \<lparr>Label = lit ''b'',
         Aliases = [(lit ''l'', \<lparr>Name = lit ''l'', Cmd = lit ''ls'', Desc = []\<rparr>)]\<rparr>)] 4)) = [lit ''a''] \<and>
   (placed (drawPanels rounding_runtime 11 60
     [(lit ''c'', \<lparr>Label = lit ''c'',
         Aliases = [(lit ''l'', \<lparr>Name = lit ''l'', Cmd = lit ''ls'', Desc = []\<rparr>)]\<rparr>),
      (lit ''a'', \<lparr>Label = lit ''a'',
         Aliases = [(lit ''l'', \<lparr>Name = lit ''l'', Cmd = lit ''ls'', Desc = []\<rparr>)]\<rparr>),
      (lit ''b'', \<lparr>Label = lit ''b'',
         Aliases = [(lit ''l'', \<lparr>Name = lit ''l'', Cmd = lit ''ls'', Desc = []\<rparr>)]\<rparr>)] 4) \<noteq> [] \<and>
    snd (section_call rounding_runtime
     [(lit ''c'', \<lparr>Label = lit ''c'',
         Aliases = [(lit ''l'', \<lparr>Name = lit ''l'', Cmd = lit ''ls'', Desc = []\<rparr>)]\<rparr>),
      (lit ''a'', \<lparr>Label = lit ''a'',
         Aliases = [(lit ''l'', \<lparr>Name = lit ''l'', Cmd = lit ''ls'', Desc = []\<rparr>)]\<rparr>),
      (lit ''b'', \<lparr>Label = lit ''b'',
         Aliases = [(lit ''l'', \<lparr>Name = lit ''l'', Cmd = lit ''ls'', Desc = []\<rparr>)]\<rparr>)] (last (placed (drawPanels rounding_runtime 11 60
     [(lit ''c'', \<lparr>Label = lit ''c'',
         Aliases = [(lit ''l'', \<lparr>Name = lit ''l'', Cmd = lit ''ls'', Desc = []\<rparr>)]\<rparr>),
      (lit ''a'', \<lparr>Label = lit ''a'',
         Aliases = [(lit ''l'', \<lparr>Name = lit ''l'', Cmd = lit ''ls'', Desc = []\<rparr>)]\<rparr>),
      (lit ''b'', \<lparr>Label = lit ''b'',
         Aliases = [(lit ''l'', \<lparr>Name = lit ''l'', Cmd = lit ''ls'', Desc = []\<rparr>)]\<rparr>)] 4)))) = Failed InvalidArgument) \<and>
   (outcome (drawPanels rounding_runtime 11 60
     [(lit ''c'', \<lparr>Label = lit ''c'',
         Aliases = [(lit ''l'', \<lparr>Name = lit ''l'', Cmd = lit ''ls'', Desc = []\<rparr>)]\<rparr>),
      (lit ''a'', \<lparr>Label = lit ''a'',
         Aliases = [(lit ''l'', \<lparr>Name = lit ''l'', Cmd = lit ''ls'', Desc = []\<rparr>)]\<rparr>),
      (lit ''b'', \<lparr>Label = lit ''b'',
         Aliases = [(lit ''l'', \<lparr>Name = lit ''l'', Cmd = lit ''ls'', Desc = []\<rparr>)]\<rparr>)] 4) = Returned \<and>
    drawn (drawPanels rounding_runtime 11 60
     [(lit ''c'', \<lparr>Label = lit ''c'',
         Aliases = [(lit ''l'', \<lparr>Name = lit ''l'', Cmd = lit ''ls'', Desc = []\<rparr>)]\<rparr>),
      (lit ''a'', \<lparr>Label = lit ''a'',
         Aliases = [(lit ''l'', \<lparr>Name = lit ''l'', Cmd = lit ''ls'', Desc = []\<rparr>)]\<rparr>),
      (lit ''b'', \<lparr>Label = lit ''b'',
         Aliases = [(lit ''l'', \<lparr>Name = lit ''l'', Cmd = lit ''ls'', Desc = []\<rparr>)]\<rparr>)] 4) =
      EmitStr (11 - 20) 0 White (lit ''Press [Q]uit to exit'') #
      concat (map (\<lambda>pl. fst (section_call rounding_runtime
     [(lit ''c'', \<lparr>Label = lit ''c'',
         Aliases = [(lit ''l'', \<lparr>Name = lit ''l'', Cmd = lit ''ls'', Desc = []\<rparr>)]\<rparr>),
      (lit ''a'', \<lparr>Label = lit ''a'',
         Aliases = [(lit ''l'', \<lparr>Name = lit ''l'', Cmd = lit ''ls'', Desc = []\<rparr>)]\<rparr>),
      (lit ''b'', \<lparr>Label = lit ''b'',
         Aliases = [(lit ''l'', \<lparr>Name = lit ''l'', Cmd = lit ''ls'', Desc = []\<rparr>)]\<rparr>)] pl)) (placed (drawPanels rounding_runtime 11 60
     [(lit ''c'', \<lparr>Label = lit ''c'',
         Aliases = [(lit ''l'', \<lparr>Name = lit ''l'', Cmd = lit ''ls'', Desc = []\<rparr>)]\<rparr>),
      (lit ''a'', \<lparr>Label = lit ''a'',
         Aliases = [(lit ''l'', \<lparr>Name = lit ''l'', Cmd = lit ''ls'', Desc = []\<rparr>)]\<rparr>),
      (lit ''b'', \<lparr>Label = lit ''b'',
         Aliases = [(lit ''l'', \<lparr>Name = lit ''l'', Cmd = lit ''ls'', Desc = []\<rparr>)]\<rparr>)] 4))) @
      [LogError InvalidArgument]) \<and>
   drawn (drawPanels rounding_runtime 11 60
     [(lit ''c'', \<lparr>Label = lit ''c'',
         Aliases = [(lit ''l'', \<lparr>Name = lit ''l'', Cmd = lit ''ls'', Desc = []\<rparr>)]\<rparr>),
      (lit ''a'', \<lparr>Label = lit ''a'',
         Aliases = [(lit ''l'', \<lparr>Name = lit ''l'', Cmd = lit ''ls'', Desc = []\<rparr>)]\<rparr>),
      (lit ''b'', \<lparr>Label = lit ''b'',
         Aliases = [(lit ''l'', \<lparr>Name = lit ''l'', Cmd = lit ''ls'', Desc = []\<rparr>)]\<rparr>)] 4) =
     [EmitStr (- 9) 0 White (lit ''Press [Q]uit to exit''),
      DrawBox 4 4 3 7 White, LogError InvalidArgument, LogError InvalidArgument]"
proof -
  have s: "sort (map fst
     [(lit ''c'', \<lparr>Label = lit ''c'',
         Aliases = [(lit ''l'', \<lparr>Name = lit ''l'', Cmd = lit ''ls'', Desc = []\<rparr>)]\<rparr>),
      (lit ''a'', \<lparr>Label = lit ''a'',
         Aliases = [(lit ''l'', \<lparr>Name = lit ''l'', Cmd = lit ''ls'', Desc = []\<rparr>)]\<rparr>),
      (lit ''b'', \<lparr>Label = lit ''b'',
         Aliases = [(lit ''l'', \<lparr>Name = lit ''l'', Cmd = lit ''ls'', Desc = []\<rparr>)]\<rparr>)]) = [lit ''a'', lit ''b'', lit ''c'']"
    by code_simp
  have l: "map block_label (placed (drawPanels rounding_runtime 11 60
     [(lit ''c'', \<lparr>Label = lit ''c'',
         Aliases = [(lit ''l'', \<lparr>Name = lit ''l'', Cmd = lit ''ls'', Desc = []\<rparr>)]\<rparr>),
      (lit ''a'', \<lparr>Label = lit ''a'',
         Aliases = [(lit ''l'', \<lparr>Name = lit ''l'', Cmd = lit ''ls'', Desc = []\<rparr>)]\<rparr>),
      (lit ''b'', \<lparr>Label = lit ''b'',
         Aliases = [(lit ''l'', \<lparr>Name = lit ''l'', Cmd = lit ''ls'', Desc = []\<rparr>)]\<rparr>)] 4)) = [lit ''a'']"
    by code_simp
  have c: "placed (drawPanels rounding_runtime 11 60
     [(lit ''c'', \<lparr>Label = lit ''c'',
         Aliases = [(lit ''l'', \<lparr>Name = lit ''l'', Cmd = lit ''ls'', Desc = []\<rparr>)]\<rparr>),
      (lit ''a'', \<lparr>Label = lit ''a'',
         Aliases = [(lit ''l'', \<lparr>Name = lit ''l'', Cmd = lit ''ls'', Desc = []\<rparr>)]\<rparr>),
      (lit ''b'', \<lparr>Label = lit ''b'',
         Aliases = [(lit ''l'', \<lparr>Name = lit ''l'', Cmd = lit ''ls'', Desc = []\<rparr>)]\<rparr>)] 4) \<noteq> [] \<and>
    snd (section_call rounding_runtime
     [(lit ''c'', \<lparr>Label = lit ''c'',
         Aliases = [(lit ''l'', \<lparr>Name = lit ''l'', Cmd = lit ''ls'', Desc = []\<rparr>)]\<rparr>),
      (lit ''a'', \<lparr>Label = lit ''a'',
         Aliases = [(lit ''l'', \<lparr>Name = lit ''l'', Cmd = lit ''ls'', Desc = []\<rparr>)]\<rparr>),
      (lit ''b'', \<lparr>Label = lit ''b'',
         Aliases = [(lit ''l'', \<lparr>Name = lit ''l'', Cmd = lit ''ls'', Desc = []\<rparr>)]\<rparr>)] (last (placed (drawPanels rounding_runtime 11 60
     [(lit ''c'', \<lparr>Label = lit ''c'',
         Aliases = [(lit ''l'', \<lparr>Name = lit ''l'', Cmd = lit ''ls'', Desc = []\<rparr>)]\<rparr>),
      (lit ''a'', \<lparr>Label = lit ''a'',
         Aliases = [(lit ''l'', \<lparr>Name = lit ''l'', Cmd = lit ''ls'', Desc = []\<rparr>)]\<rparr>),
      (lit ''b'', \<lparr>Label = lit ''b'',
         Aliases = [(lit ''l'', \<lparr>Name = lit ''l'', Cmd = lit ''ls'', Desc = []\<rparr>)]\<rparr>)] 4)))) = Failed InvalidArgument"
    by code_simp
  have d: "drawn (drawPanels rounding_runtime 11 60
     [(lit ''c'', \<lparr>Label = lit ''c'',
         Aliases = [(lit ''l'', \<lparr>Name = lit ''l'', Cmd = lit ''ls'', Desc = []\<rparr>)]\<rparr>),
      (lit ''a'', \<lparr>Label = lit ''a'',
         Aliases = [(lit ''l'', \<lparr>Name = lit ''l'', Cmd = lit ''ls'', Desc = []\<rparr>)]\<rparr>),
      (lit ''b'', \<lparr>Label = lit ''b'',
         Aliases = [(lit ''l'', \<lparr>Name = lit ''l'', Cmd = lit ''ls'', Desc = []\<rparr>)]\<rparr>)] 4) =
     [EmitStr (- 9) 0 White (lit ''Press [Q]uit to exit''),
      DrawBox 4 4 3 7 White, LogError InvalidArgument, LogError InvalidArgument]"
    by code_simp
  from drawPanels_error_ends_pass [of rounding_runtime 11 60
     "[(lit ''c'', \<lparr>Label = lit ''c'',
         Aliases = [(lit ''l'', \<lparr>Name = lit ''l'', Cmd = lit ''ls'', Desc = []\<rparr>)]\<rparr>),
      (lit ''a'', \<lparr>Label = lit ''a'',
         Aliases = [(lit ''l'', \<lparr>Name = lit ''l'', Cmd = lit ''ls'', Desc = []\<rparr>)]\<rparr>),
      (lit ''b'', \<lparr>Label = lit ''b'',
         Aliases = [(lit ''l'', \<lparr>Name = lit ''l'', Cmd = lit ''ls'', Desc = []\<rparr>)]\<rparr>)]" 4]
  have "placed (drawPanels rounding_runtime 11 60
     [(lit ''c'', \<lparr>Label = lit ''c'',
         Aliases = [(lit ''l'', \<lparr>Name = lit ''l'', Cmd = lit ''ls'', Desc = []\<rparr>)]\<rparr>),
      (lit ''a'', \<lparr>Label = lit ''a'',
         Aliases = [(lit ''l'', \<lparr>Name = lit ''l'', Cmd = lit ''ls'', Desc = []\<rparr>)]\<rparr>),
      (lit ''b'', \<lparr>Label = lit ''b'',
         Aliases = [(lit ''l'', \<lparr>Name = lit ''l'', Cmd = lit ''ls'', Desc = []\<rparr>)]\<rparr>)] 4) \<noteq> [] \<and>
    snd (section_call rounding_runtime
     [(lit ''c'', \<lparr>Label = lit ''c'',
         Aliases = [(lit ''l'', \<lparr>Name = lit ''l'', Cmd = lit ''ls'', Desc = []\<rparr>)]\<rparr>),
      (lit ''a'', \<lparr>Label = lit ''a'',
         Aliases = [(lit ''l'', \<lparr>Name = lit ''l'', Cmd = lit ''ls'', Desc = []\<rparr>)]\<rparr>),
      (lit ''b'', \<lparr>Label = lit ''b'',
         Aliases = [(lit ''l'', \<lparr>Name = lit ''l'', Cmd = lit ''ls'', Desc = []\<rparr>)]\<rparr>)] (last (placed (drawPanels rounding_runtime 11 60
     [(lit ''c'', \<lparr>Label = lit ''c'',
         Aliases = [(lit ''l'', \<lparr>Name = lit ''l'', Cmd = lit ''ls'', Desc = []\<rparr>)]\<rparr>),
      (lit ''a'', \<lparr>Label = lit ''a'',
         Aliases = [(lit ''l'', \<lparr>Name = lit ''l'', Cmd = lit ''ls'', Desc = []\<rparr>)]\<rparr>),
      (lit ''b'', \<lparr>Label = lit ''b'',
         Aliases = [(lit ''l'', \<lparr>Name = lit ''l'', Cmd = lit ''ls'', Desc = []\<rparr>)]\<rparr>)] 4)))) = Failed InvalidArgument \<longrightarrow>
    outcome (drawPanels rounding_runtime 11 60
     [(lit ''c'', \<lparr>Label = lit ''c'',
         Aliases = [(lit ''l'', \<lparr>Name = lit ''l'', Cmd = lit ''ls'', Desc = []\<rparr>)]\<rparr>),
      (lit ''a'', \<lparr>Label = lit ''a'',
         Aliases = [(lit ''l'', \<lparr>Name = lit ''l'', Cmd = lit ''ls'', Desc = []\<rparr>)]\<rparr>),
      (lit ''b'', \<lparr>Label = lit ''b'',
         Aliases = [(lit ''l'', \<lparr>Name = lit ''l'', Cmd = lit ''ls'', Desc = []\<rparr>)]\<rparr>)] 4) = Returned \<and>
    drawn (drawPanels rounding_runtime 11 60
     [(lit ''c'', \<lparr>Label = lit ''c'',
         Aliases = [(lit ''l'', \<lparr>Name = lit ''l'', Cmd = lit ''ls'', Desc = []\<rparr>)]\<rparr>),
      (lit ''a'', \<lparr>Label = lit ''a'',
         Aliases = [(lit ''l'', \<lparr>Name = lit ''l'', Cmd = lit ''ls'', Desc = []\<rparr>)]\<rparr>),
      (lit ''b'', \<lparr>Label = lit ''b'',
         Aliases = [(lit ''l'', \<lparr>Name = lit ''l'', Cmd = lit ''ls'', Desc = []\<rparr>)]\<rparr>)] 4) =
      EmitStr (11 - 20) 0 White (lit ''Press [Q]uit to exit'') #
      concat (map (\<lambda>pl. fst (section_call rounding_runtime
     [(lit ''c'', \<lparr>Label = lit ''c'',
         Aliases = [(lit ''l'', \<lparr>Name = lit ''l'', Cmd = lit ''ls'', Desc = []\<rparr>)]\<rparr>),
      (lit ''a'', \<lparr>Label = lit ''a'',
         Aliases = [(lit ''l'', \<lparr>Name = lit ''l'', Cmd = lit ''ls'', Desc = []\<rparr>)]\<rparr>),
      (lit ''b'', \<lparr>Label = lit ''b'',
         Aliases = [(lit ''l'', \<lparr>Name = lit ''l'', Cmd = lit ''ls'', Desc = []\<rparr>)]\<rparr>)] pl)) (placed (drawPanels rounding_runtime 11 60
     [(lit ''c'', \<lparr>Label = lit ''c'',
         Aliases = [(lit ''l'', \<lparr>Name = lit ''l'', Cmd = lit ''ls'', Desc = []\<rparr>)]\<rparr>),
      (lit ''a'', \<lparr>Label = lit ''a'',
         Aliases = [(lit ''l'', \<lparr>Name = lit ''l'', Cmd = lit ''ls'', Desc = []\<rparr>)]\<rparr>),
      (lit ''b'', \<lparr>Label = lit ''b'',
         Aliases = [(lit ''l'', \<lparr>Name = lit ''l'', Cmd = lit ''ls'', Desc = []\<rparr>)]\<rparr>)] 4))) @
      [LogError InvalidArgument]"
    by (elim conjE)
  from this c have o: "outcome (drawPanels rounding_runtime 11 60
     [(lit ''c'', \<lparr>Label = lit ''c'',
         Aliases = [(lit ''l'', \<lparr>Name = lit ''l'', Cmd = lit ''ls'', Desc = []\<rparr>)]\<rparr>),
      (lit ''a'', \<lparr>Label = lit ''a'',
         Aliases = [(lit ''l'', \<lparr>Name = lit ''l'', Cmd = lit ''ls'', Desc = []\<rparr>)]\<rparr>),
      (lit ''b'', \<lparr>Label = lit ''b'',
         Aliases = [(lit ''l'', \<lparr>Name = lit ''l'', Cmd = lit ''ls'', Desc = []\<rparr>)]\<rparr>)] 4) = Returned \<and>
    drawn (drawPanels rounding_runtime 11 60
     [(lit ''c'', \<lparr>Label = lit ''c'',
         Aliases = [(lit ''l'', \<lparr>Name = lit ''l'', Cmd = lit ''ls'', Desc = []\<rparr>)]\<rparr>),
      (lit ''a'', \<lparr>Label = lit ''a'',
         Aliases = [(lit ''l'', \<lparr>Name = lit ''l'', Cmd = lit ''ls'', Desc = []\<rparr>)]\<rparr>),
      (lit ''b'', \<lparr>Label = lit ''b'',
         Aliases = [(lit ''l'', \<lparr>Name = lit ''l'', Cmd = lit ''ls'', Desc = []\<rparr>)]\<rparr>)] 4) =
      EmitStr (11 - 20) 0 White (lit ''Press [Q]uit to exit'') #
      concat (map (\<lambda>pl. fst (section_call rounding_runtime
     [(lit ''c'', \<lparr>Label = lit ''c'',
         Aliases = [(lit ''l'', \<lparr>Name = lit ''l'', Cmd = lit ''ls'', Desc = []\<rparr>)]\<rparr>),
      (lit ''a'', \<lparr>Label = lit ''a'',
         Aliases = [(lit ''l'', \<lparr>Name = lit ''l'', Cmd = lit ''ls'', Desc = []\<rparr>)]\<rparr>),
      (lit ''b'', \<lparr>Label = lit ''b'',
         Aliases = [(lit ''l'', \<lparr>Name = lit ''l'', Cmd = lit ''ls'', Desc = []\<rparr>)]\<rparr>)] pl)) (placed (drawPanels rounding_runtime 11 60
     [(lit ''c'', \<lparr>Label = lit ''c'',
         Aliases = [(lit ''l'', \<lparr>Name = lit ''l'', Cmd = lit ''ls'', Desc = []\<rparr>)]\<rparr>),
      (lit ''a'', \<lparr>Label = lit ''a'',
         Aliases = [(lit ''l'', \<lparr>Name = lit ''l'', Cmd = lit ''ls'', Desc = []\<rparr>)]\<rparr>),
      (lit ''b'', \<lparr>Label = lit ''b'',
         Aliases = [(lit ''l'', \<lparr>Name = lit ''l'', Cmd = lit ''ls'', Desc = []\<rparr>)]\<rparr>)] 4))) @
      [LogError InvalidArgument]"
    by (rule mp)
  show ?thesis
    by (intro conjI) (rule s l c [THEN conjunct1] c [THEN conjunct2] o [THEN conjunct1]
        o [THEN conjunct2] d)+
qed

text \<open>
  C3 as stated fails: in a window of 13 by 60 with margin 5 the column is 3
  wide, drawing the first block \<open>apt\<close> returns the error, and the pass ends
  with that one placement, although the next block \<open>git\<close>, 14 rows of text,
  would still pass the height test at row 21.
\<close>

theorem drawPanels_continues_counterexample:
  "drawPanels rounding_runtime 13 60
     [(lit ''git'', \<lparr>Label = lit ''git'',
         Aliases = [(lit ''gs'', \<lparr>Name = lit ''gs'', Cmd = lit ''git status'', Desc = []\<rparr>)]\<rparr>),
      (lit ''apt'', \<lparr>Label = lit ''apt'',
         Aliases = [(lit ''up'', \<lparr>Name = lit ''up'', Cmd = lit ''apt update'', Desc = []\<rparr>)]\<rparr>)] 5
   = \<lparr>placed = [\<lparr>column_no = 0, block_label = lit ''apt'', origin_x = 5, origin_y = 5,
                   width = 3, height = 16\<rparr>],
      drawn = [EmitStr (- 7) 0 White (lit ''Press [Q]uit to exit''),
               DrawBox 5 5 3 16 White, LogError InvalidArgument, LogError InvalidArgument],
      outcome = Returned\<rparr> \<and>
   body_height 3 [(lit ''gs'', \<lparr>Name = lit ''gs'', Cmd = lit ''git status'', Desc = []\<rparr>)] 0 = Inr 14 \<and>
   (21::int) + 14 - 1 < 60 - 2"
  by code_simp

section \<open>The layout pass: where the placements are\<close>

text \<open>
  C2, as the code has it. Every placement of a pass ends inside the window
  from above, \<open>origin_y + height \<le> h\<close> (the frame may reach the last row), and,
  when the margin is not negative, from the left, \<open>origin_x + width \<le> w\<close>.
  Its width is the column width computed from the window, and its height is
  the summed body height of its section plus 2.
\<close>

theorem placements_inside_window:
  assumes "pl \<in> set (placed (drawPanels rt w h sm m))"
  shows "origin_y pl + height pl \<le> h \<and>
         (0 \<le> m \<longrightarrow> origin_x pl + width pl \<le> w) \<and>
         (\<exists>nc pw bh. maxColumns w minPanelWidth maxPanelWidth = Inr nc \<and>
            maxColumnWidth w nc m = Inr pw \<and> width pl = pw \<and>
            body_height pw (Aliases (section_at sm (block_label pl))) 0 = Inr bh \<and>
            height pl = bh + 2)"
proof (cases "10 \<le> w \<and> 10 \<le> h")
  case False
  then have "drawPanels rt w h sm m = \<lparr>placed = [], drawn = [], outcome = Returned\<rparr>"
    by (auto simp add: drawPanels_def window_defs)
  with assms show ?thesis by simp
next
  case True
  then have big: "10 \<le> w" "10 \<le> h" by simp_all
  then show ?thesis
  proof (rule drawPanels_large [where sm = sm and m = m])
    fix nc pw pls evs r
    assume nc: "nc = (if (w - 2) div 52 = 0 then 1 else (w - 2) div 52)"
      and pw: "pw = go_quot (w - (1 + nc) * m) nc"
      and mc: "maxColumns w minPanelWidth maxPanelWidth = Inr nc"
      and mw: "maxColumnWidth w nc m = Inr pw"
      and cols: "columns rt nc h pw m sm 0 (sort (map fst sm)) = (pls, evs, r)"
      and dp: "drawPanels rt w h sm m = \<lparr>placed = pls,
       drawn = EmitStr (w - 20) 0 White (lit ''Press [Q]uit to exit'') # evs, outcome = r\<rparr>"
    from assms dp have "pl \<in> set pls" by simp
    note g = columns_geometry [OF cols this]
    have "origin_x pl + width pl \<le> w" if "0 \<le> m"
      using column_fits [OF big(1) that nc, of "column_no pl"] g
      by (simp add: pw)
    with g mc mw show ?thesis by auto
  qed
qed

theorem placements_inside_window_witness:
  "\<lparr>column_no = 0, block_label = lit ''git'', origin_x = 2, origin_y = 5,
        width = 96, height = 3\<rparr> \<in> set (placed (drawPanels rounding_runtime 100 24
     [(lit ''git'', \<lparr>Label = lit ''git'',
         Aliases = [(lit ''gs'', \<lparr>Name = lit ''gs'', Cmd = lit ''git status'', Desc = []\<rparr>)]\<rparr>),
      (lit ''apt'', \<lparr>Label = lit ''apt'',
         Aliases = [(lit ''up'', \<lparr>Name = lit ''up'', Cmd = lit ''apt update'', Desc = []\<rparr>)]\<rparr>)] 2)) \<and>
   origin_y \<lparr>column_no = 0, block_label = lit ''git'', origin_x = 2, origin_y = 5,
        width = 96, height = 3\<rparr> + height \<lparr>column_no = 0, block_label = lit ''git'', origin_x = 2, origin_y = 5,
        width = 96, height = 3\<rparr> \<le> 24 \<and> (0::int) \<le> 2 \<and>
   origin_x \<lparr>column_no = 0, block_label = lit ''git'', origin_x = 2, origin_y = 5,
        width = 96, height = 3\<rparr> + width \<lparr>column_no = 0, block_label = lit ''git'', origin_x = 2, origin_y = 5,
        width = 96, height = 3\<rparr> \<le> 100"
proof -
  have e: "placed (drawPanels rounding_runtime 100 24
     [(lit ''git'', \<lparr>Label = lit ''git'',
         Aliases = [(lit ''gs'', \<lparr>Name = lit ''gs'', Cmd = lit ''git status'', Desc = []\<rparr>)]\<rparr>),
      (lit ''apt'', \<lparr>Label = lit ''apt'',
         Aliases = [(lit ''up'', \<lparr>Name = lit ''up'', Cmd = lit ''apt update'', Desc = []\<rparr>)]\<rparr>)] 2) =
    [\<lparr>column_no = 0, block_label = lit ''apt'', origin_x = 2, origin_y = 2,
        width = 96, height = 3\<rparr>,
     \<lparr>column_no = 0, block_label = lit ''git'', origin_x = 2, origin_y = 5,
        width = 96, height = 3\<rparr>]"
    by code_simp
  then have "\<lparr>column_no = 0, block_label = lit ''git'', origin_x = 2, origin_y = 5,
        width = 96, height = 3\<rparr> \<in> set (placed (drawPanels rounding_runtime 100 24
     [(lit ''git'', \<lparr>Label = lit ''git'',
         Aliases = [(lit ''gs'', \<lparr>Name = lit ''gs'', Cmd = lit ''git status'', Desc = []\<rparr>)]\<rparr>),
      (lit ''apt'', \<lparr>Label = lit ''apt'',
         Aliases = [(lit ''up'', \<lparr>Name = lit ''up'', Cmd = lit ''apt update'', Desc = []\<rparr>)]\<rparr>)] 2))" by simp
  from placements_inside_window [OF this] show ?thesis by (simp add: e)
qed

text \<open>
  C2 as stated fails. In a window of 50 by 10 with margin 2 a section of six
  one-line aliases is placed at row 2 with height 8: it ends at
  \<open>2 + 8 = 10\<close>, which exceeds \<open>h - 1 = 9\<close>. With margin \<open>-1\<close> in a window of
  10 by 10 the pass calls \<open>drawSection\<close> at column \<open>-1\<close> with width 12, and
  \<open>-1 + 12\<close> exceeds the window width.
\<close>

theorem placements_inside_counterexample:
  "placed (drawPanels rounding_runtime 50 10
     [(lit ''a'', \<lparr>Label = lit ''a'', Aliases =
        [(lit ''a'', \<lparr>Name = lit ''a'', Cmd = lit ''x'', Desc = []\<rparr>),
         (lit ''b'', \<lparr>Name = lit ''b'', Cmd = lit ''x'', Desc = []\<rparr>),
         (lit ''c'', \<lparr>Name = lit ''c'', Cmd = lit ''x'', Desc = []\<rparr>),
         (lit ''d'', \<lparr>Name = lit ''d'', Cmd = lit ''x'', Desc = []\<rparr>),
         (lit ''e'', \<lparr>Name = lit ''e'', Cmd = lit ''x'', Desc = []\<rparr>),
         (lit ''f'', \<lparr>Name = lit ''f'', Cmd = lit ''x'', Desc = []\<rparr>)]\<rparr>)] 2)
     = [\<lparr>column_no = 0, block_label = lit ''a'', origin_x = 2, origin_y = 2,
          width = 46, height = 8\<rparr>] \<and>
   \<not> ((2::int) + 8 \<le> 10 - 1) \<and>
   placed (drawPanels rounding_runtime 10 10
     [(lit ''a'', \<lparr>Label = lit ''a'', Aliases =
        [(lit ''l'', \<lparr>Name = lit ''l'', Cmd = lit ''ls'', Desc = []\<rparr>)]\<rparr>)] (- 1))
     = [\<lparr>column_no = 0, block_label = lit ''a'', origin_x = - 1, origin_y = - 1,
          width = 12, height = 3\<rparr>] \<and>
   \<not> ((- 1::int) + 12 \<le> 10)"
  by code_simp

section \<open>The layout pass: first fit\<close>

text \<open>
  C5, as the code has it. The blocks placed are an initial segment of the
  labels in sorted order: one cursor runs through them and no block is passed
  over. Each placement follows the one before it either right below it in
  the same column or at the top of the next column, never in an earlier one,
  and it moves to the next column only when the column was full or its frame
  would have ended below the last row, \<open>py + bh + 2 > h\<close> (the test
  \<open>py + bh - 1 \<ge> h - 2\<close>). The first placement is at the top of column 0.
  Every block placed fits from the top of a column, \<open>m + height \<le> h\<close>.
  And the pass places as long as it can: when it returns with every block
  it called drawn, then either all blocks are placed, or the next block in
  sorted order has no room at the top of a column (it is placed in no
  column, and no block after it is), or the last placement is in the last
  column and the next block has no room below it.
\<close>

theorem packing_first_fit:
  "map block_label (placed (drawPanels rt w h sm m))
     = take (length (placed (drawPanels rt w h sm m))) (sort (map fst sm)) \<and>
   successively (follows m h) (placed (drawPanels rt w h sm m)) \<and>
   (placed (drawPanels rt w h sm m) \<noteq> [] \<longrightarrow>
      column_no (hd (placed (drawPanels rt w h sm m))) = 0 \<and>
      origin_y (hd (placed (drawPanels rt w h sm m))) = m) \<and>
   (\<forall>pl\<in>set (placed (drawPanels rt w h sm m)).
      origin_y pl < h \<and> origin_y pl + height pl \<le> h \<and> m + height pl \<le> h) \<and>
   (10 \<le> w \<and> 10 \<le> h \<and> outcome (drawPanels rt w h sm m) = Returned \<and>
    (\<forall>pl\<in>set (placed (drawPanels rt w h sm m)). snd (section_call rt sm pl) = Returned) \<longrightarrow>
      (\<exists>nc pw. maxColumns w minPanelWidth maxPanelWidth = Inr nc \<and>
         maxColumnWidth w nc m = Inr pw \<and>
         (length (placed (drawPanels rt w h sm m)) = length sm \<or>
          no_room h m (body_height pw (Aliases (section_at sm
            (sort (map fst sm) ! length (placed (drawPanels rt w h sm m))))) 0) \<or>
          (placed (drawPanels rt w h sm m) \<noteq> [] \<and>
           column_no (last (placed (drawPanels rt w h sm m))) = nc - 1 \<and>
           no_room h (origin_y (last (placed (drawPanels rt w h sm m))) +
                      height (last (placed (drawPanels rt w h sm m))))
             (body_height pw (Aliases (section_at sm
               (sort (map fst sm) ! length (placed (drawPanels rt w h sm m))))) 0)))))"
proof -
  have first: "map block_label (placed (drawPanels rt w h sm m))
     = take (length (placed (drawPanels rt w h sm m))) (sort (map fst sm)) \<and>
   successively (follows m h) (placed (drawPanels rt w h sm m)) \<and>
   (placed (drawPanels rt w h sm m) \<noteq> [] \<longrightarrow>
      column_no (hd (placed (drawPanels rt w h sm m))) = 0 \<and>
      origin_y (hd (placed (drawPanels rt w h sm m))) = m) \<and>
   (\<forall>pl\<in>set (placed (drawPanels rt w h sm m)).
      origin_y pl < h \<and> origin_y pl + height pl \<le> h \<and> m + height pl \<le> h)"
  proof (cases "10 \<le> w \<and> 10 \<le> h")
    case False
    then have "drawPanels rt w h sm m = \<lparr>placed = [], drawn = [], outcome = Returned\<rparr>"
      by (auto simp add: drawPanels_def window_defs)
    then show ?thesis by simp
  next
    case True
    then have "10 \<le> w" "10 \<le> h" by simp_all
    then show ?thesis
    proof (rule drawPanels_large [where rt = rt and sm = sm and m = m])
      fix nc pw pls evs r
      assume cols: "columns rt nc h pw m sm 0 (sort (map fst sm)) = (pls, evs, r)"
        and dp: "drawPanels rt w h sm m = \<lparr>placed = pls,
         drawn = EmitStr (w - 20) 0 White (lit ''Press [Q]uit to exit'') # evs, outcome = r\<rparr>"
      have "origin_y pl < h \<and> origin_y pl + height pl \<le> h \<and> m + height pl \<le> h"
        if "pl \<in> set pls" for pl
        using columns_origin [OF cols that] columns_geometry [OF cols that] by simp
      with columns_labels [OF cols] columns_stack [OF cols] show ?thesis
        by (simp add: dp)
    qed
  qed
  moreover have "\<exists>nc pw. maxColumns w minPanelWidth maxPanelWidth = Inr nc \<and>
         maxColumnWidth w nc m = Inr pw \<and>
         (length (placed (drawPanels rt w h sm m)) = length sm \<or>
          no_room h m (body_height pw (Aliases (section_at sm
            (sort (map fst sm) ! length (placed (drawPanels rt w h sm m))))) 0) \<or>
          (placed (drawPanels rt w h sm m) \<noteq> [] \<and>
           column_no (last (placed (drawPanels rt w h sm m))) = nc - 1 \<and>
           no_room h (origin_y (last (placed (drawPanels rt w h sm m))) +
                      height (last (placed (drawPanels rt w h sm m))))
             (body_height pw (Aliases (section_at sm
               (sort (map fst sm) ! length (placed (drawPanels rt w h sm m))))) 0)))"
    if "10 \<le> w" "10 \<le> h" "outcome (drawPanels rt w h sm m) = Returned"
      "\<forall>pl\<in>set (placed (drawPanels rt w h sm m)). snd (section_call rt sm pl) = Returned"
    using that by (rule drawPanels_end)
  ultimately show ?thesis by blast
qed

theorem packing_first_fit_witness:
  "(10::int) \<le> 250 \<and> (10::int) \<le> 12 \<and>
   outcome (drawPanels rounding_runtime 250 12
     [(lit ''git'', \<lparr>Label = lit ''git'',
         Aliases = [(lit ''gs'', \<lparr>Name = lit ''gs'', Cmd = lit ''git status'', Desc = []\<rparr>),
           (lit ''gl'', \<lparr>Name = lit ''gl'', Cmd = lit ''git log'', Desc = []\<rparr>),
           (lit ''gd'', \<lparr>Name = lit ''gd'', Cmd = lit ''git diff'', Desc = []\<rparr>)]\<rparr>),
      (lit ''apt'', \<lparr>Label = lit ''apt'',
         Aliases = [(lit ''up'', \<lparr>Name = lit ''up'', Cmd = lit ''apt update'', Desc = []\<rparr>),
            (lit ''ug'', \<lparr>Name = lit ''ug'', Cmd = lit ''apt upgrade'', Desc = []\<rparr>)]\<rparr>),
      (lit ''ls'', \<lparr>Label = lit ''ls'',
         Aliases = [(lit ''ll'', \<lparr>Name = lit ''ll'', Cmd = lit ''ls -l'', Desc = []\<rparr>)]\<rparr>)] 2) = Returned \<and>
   list_all (\<lambda>pl. snd (section_call rounding_runtime
     [(lit ''git'', \<lparr>Label = lit ''git'',
         Aliases = [(lit ''gs'', \<lparr>Name = lit ''gs'', Cmd = lit ''git status'', Desc = []\<rparr>),
           (lit ''gl'', \<lparr>Name = lit ''gl'', Cmd = lit ''git log'', Desc = []\<rparr>),
           (lit ''gd'', \<lparr>Name = lit ''gd'', Cmd = lit ''git diff'', Desc = []\<rparr>)]\<rparr>),
      (lit ''apt'', \<lparr>Label = lit ''apt'',
         Aliases = [(lit ''up'', \<lparr>Name = lit ''up'', Cmd = lit ''apt update'', Desc = []\<rparr>),
            (lit ''ug'', \<lparr>Name = lit ''ug'', Cmd = lit ''apt upgrade'', Desc = []\<rparr>)]\<rparr>),
      (lit ''ls'', \<lparr>Label = lit ''ls'',
         Aliases = [(lit ''ll'', \<lparr>Name = lit ''ll'', Cmd = lit ''ls -l'', Desc = []\<rparr>)]\<rparr>)] pl) = Returned) (placed (drawPanels rounding_runtime 250 12
     [(lit ''git'', \<lparr>Label = lit ''git'',
         Aliases = [(lit ''gs'', \<lparr>Name = lit ''gs'', Cmd = lit ''git status'', Desc = []\<rparr>),
           (lit ''gl'', \<lparr>Name = lit ''gl'', Cmd = lit ''git log'', Desc = []\<rparr>),
           (lit ''gd'', \<lparr>Name = lit ''gd'', Cmd = lit ''git diff'', Desc = []\<rparr>)]\<rparr>),
      (lit ''apt'', \<lparr>Label = lit ''apt'',
         Aliases = [(lit ''up'', \<lparr>Name = lit ''up'', Cmd = lit ''apt update'', Desc = []\<rparr>),
            (lit ''ug'', \<lparr>Name = lit ''ug'', Cmd = lit ''apt upgrade'', Desc = []\<rparr>)]\<rparr>),
      (lit ''ls'', \<lparr>Label = lit ''ls'',
         Aliases = [(lit ''ll'', \<lparr>Name = lit ''ll'', Cmd = lit ''ls -l'', Desc = []\<rparr>)]\<rparr>)] 2)) \<and>
   placed (drawPanels rounding_runtime 250 12
     [(lit ''git'', \<lparr>Label = lit ''git'',
         Aliases = [(lit ''gs'', \<lparr>Name = lit ''gs'', Cmd = lit ''git status'', Desc = []\<rparr>),
           (lit ''gl'', \<lparr>Name = lit ''gl'', Cmd = lit ''git log'', Desc = []\<rparr>),
           (lit ''gd'', \<lparr>Name = lit ''gd'', Cmd = lit ''git diff'', Desc = []\<rparr>)]\<rparr>),
      (lit ''apt'', \<lparr>Label = lit ''apt'',
         Aliases = [(lit ''up'', \<lparr>Name = lit ''up'', Cmd = lit ''apt update'', Desc = []\<rparr>),
            (lit ''ug'', \<lparr>Name = lit ''ug'', Cmd = lit ''apt upgrade'', Desc = []\<rparr>)]\<rparr>),
      (lit ''ls'', \<lparr>Label = lit ''ls'',
         Aliases = [(lit ''ll'', \<lparr>Name = lit ''ll'', Cmd = lit ''ls -l'', Desc = []\<rparr>)]\<rparr>)] 2) =
     [\<lparr>column_no = 0, block_label = lit ''apt'', origin_x = 2, origin_y = 2,
        width = 60, height = 4\<rparr>,
     \<lparr>column_no = 0, block_label = lit ''git'', origin_x = 2, origin_y = 6,
        width = 60, height = 5\<rparr>,
     \<lparr>column_no = 1, block_label = lit ''ls'', origin_x = 64, origin_y = 2,
        width = 60, height = 3\<rparr>] \<and>
   length (placed (drawPanels rounding_runtime 250 12
     [(lit ''git'', \<lparr>Label = lit ''git'',
         Aliases = [(lit ''gs'', \<lparr>Name = lit ''gs'', Cmd = lit ''git status'', Desc = []\<rparr>),
           (lit ''gl'', \<lparr>Name = lit ''gl'', Cmd = lit ''git log'', Desc = []\<rparr>),
           (lit ''gd'', \<lparr>Name = lit ''gd'', Cmd = lit ''git diff'', Desc = []\<rparr>)]\<rparr>),
      (lit ''apt'', \<lparr>Label = lit ''apt'',
         Aliases = [(lit ''up'', \<lparr>Name = lit ''up'', Cmd = lit ''apt update'', Desc = []\<rparr>),
            (lit ''ug'', \<lparr>Name = lit ''ug'', Cmd = lit ''apt upgrade'', Desc = []\<rparr>)]\<rparr>),
      (lit ''ls'', \<lparr>Label = lit ''ls'',
         Aliases = [(lit ''ll'', \<lparr>Name = lit ''ll'', Cmd = lit ''ls -l'', Desc = []\<rparr>)]\<rparr>)] 2)) = length
     [(lit ''git'', \<lparr>Label = lit ''git'',
         Aliases = [(lit ''gs'', \<lparr>Name = lit ''gs'', Cmd = lit ''git status'', Desc = []\<rparr>),
           (lit ''gl'', \<lparr>Name = lit ''gl'', Cmd = lit ''git log'', Desc = []\<rparr>),
           (lit ''gd'', \<lparr>Name = lit ''gd'', Cmd = lit ''git diff'', Desc = []\<rparr>)]\<rparr>),
      (lit ''apt'', \<lparr>Label = lit ''apt'',
         Aliases = [(lit ''up'', \<lparr>Name = lit ''up'', Cmd = lit ''apt update'', Desc = []\<rparr>),
            (lit ''ug'', \<lparr>Name = lit ''ug'', Cmd = lit ''apt upgrade'', Desc = []\<rparr>)]\<rparr>),
      (lit ''ls'', \<lparr>Label = lit ''ls'',
         Aliases = [(lit ''ll'', \<lparr>Name = lit ''ll'', Cmd = lit ''ls -l'', Desc = []\<rparr>)]\<rparr>)] \<and>
   successively (follows 2 12) (placed (drawPanels rounding_runtime 250 12
     [(lit ''git'', \<lparr>Label = lit ''git'',
         Aliases = [(lit ''gs'', \<lparr>Name = lit ''gs'', Cmd = lit ''git status'', Desc = []\<rparr>),
           (lit ''gl'', \<lparr>Name = lit ''gl'', Cmd = lit ''git log'', Desc = []\<rparr>),
           (lit ''gd'', \<lparr>Name = lit ''gd'', Cmd = lit ''git diff'', Desc = []\<rparr>)]\<rparr>),
      (lit ''apt'', \<lparr>Label = lit ''apt'',
         Aliases = [(lit ''up'', \<lparr>Name = lit ''up'', Cmd = lit ''apt update'', Desc = []\<rparr>),
            (lit ''ug'', \<lparr>Name = lit ''ug'', Cmd = lit ''apt upgrade'', Desc = []\<rparr>)]\<rparr>),
      (lit ''ls'', \<lparr>Label = lit ''ls'',
         Aliases = [(lit ''ll'', \<lparr>Name = lit ''ll'', Cmd = lit ''ls -l'', Desc = []\<rparr>)]\<rparr>)] 2))"
proof -
  have n: "(10::int) \<le> 250" "(10::int) \<le> 12" by simp_all
  have o: "outcome (drawPanels rounding_runtime 250 12
     [(lit ''git'', \<lparr>Label = lit ''git'',
         Aliases = [(lit ''gs'', \<lparr>Name = lit ''gs'', Cmd = lit ''git status'', Desc = []\<rparr>),
           (lit ''gl'', \<lparr>Name = lit ''gl'', Cmd = lit ''git log'', Desc = []\<rparr>),
           (lit ''gd'', \<lparr>Name = lit ''gd'', Cmd = lit ''git diff'', Desc = []\<rparr>)]\<rparr>),
      (lit ''apt'', \<lparr>Label = lit ''apt'',
         Aliases = [(lit ''up'', \<lparr>Name = lit ''up'', Cmd = lit ''apt update'', Desc = []\<rparr>),
            (lit ''ug'', \<lparr>Name = lit ''ug'', Cmd = lit ''apt upgrade'', Desc = []\<rparr>)]\<rparr>),
      (lit ''ls'', \<lparr>Label = lit ''ls'',
         Aliases = [(lit ''ll'', \<lparr>Name = lit ''ll'', Cmd = lit ''ls -l'', Desc = []\<rparr>)]\<rparr>)] 2) = Returned"
    by code_simp
  have c: "list_all (\<lambda>pl. snd (section_call rounding_runtime
     [(lit ''git'', \<lparr>Label = lit ''git'',
         Aliases = [(lit ''gs'', \<lparr>Name = lit ''gs'', Cmd = lit ''git status'', Desc = []\<rparr>),
           (lit ''gl'', \<lparr>Name = lit ''gl'', Cmd = lit ''git log'', Desc = []\<rparr>),
           (lit ''gd'', \<lparr>Name = lit ''gd'', Cmd = lit ''git diff'', Desc = []\<rparr>)]\<rparr>),
      (lit ''apt'', \<lparr>Label = lit ''apt'',
         Aliases = [(lit ''up'', \<lparr>Name = lit ''up'', Cmd = lit ''apt update'', Desc = []\<rparr>),
            (lit ''ug'', \<lparr>Name = lit ''ug'', Cmd = lit ''apt upgrade'', Desc = []\<rparr>)]\<rparr>),
      (lit ''ls'', \<lparr>Label = lit ''ls'',
         Aliases = [(lit ''ll'', \<lparr>Name = lit ''ll'', Cmd = lit ''ls -l'', Desc = []\<rparr>)]\<rparr>)] pl) = Returned) (placed (drawPanels rounding_runtime 250 12
     [(lit ''git'', \<lparr>Label = lit ''git'',
         Aliases = [(lit ''gs'', \<lparr>Name = lit ''gs'', Cmd = lit ''git status'', Desc = []\<rparr>),
           (lit ''gl'', \<lparr>Name = lit ''gl'', Cmd = lit ''git log'', Desc = []\<rparr>),
           (lit ''gd'', \<lparr>Name = lit ''gd'', Cmd = lit ''git diff'', Desc = []\<rparr>)]\<rparr>),
      (lit ''apt'', \<lparr>Label = lit ''apt'',
         Aliases = [(lit ''up'', \<lparr>Name = lit ''up'', Cmd = lit ''apt update'', Desc = []\<rparr>),
            (lit ''ug'', \<lparr>Name = lit ''ug'', Cmd = lit ''apt upgrade'', Desc = []\<rparr>)]\<rparr>),
      (lit ''ls'', \<lparr>Label = lit ''ls'',
         Aliases = [(lit ''ll'', \<lparr>Name = lit ''ll'', Cmd = lit ''ls -l'', Desc = []\<rparr>)]\<rparr>)] 2))"
    by code_simp
  have e: "placed (drawPanels rounding_runtime 250 12
     [(lit ''git'', \<lparr>Label = lit ''git'',
         Aliases = [(lit ''gs'', \<lparr>Name = lit ''gs'', Cmd = lit ''git status'', Desc = []\<rparr>),
           (lit ''gl'', \<lparr>Name = lit ''gl'', Cmd = lit ''git log'', Desc = []\<rparr>),
           (lit ''gd'', \<lparr>Name = lit ''gd'', Cmd = lit ''git diff'', Desc = []\<rparr>)]\<rparr>),
      (lit ''apt'', \<lparr>Label = lit ''apt'',
         Aliases = [(lit ''up'', \<lparr>Name = lit ''up'', Cmd = lit ''apt update'', Desc = []\<rparr>),
            (lit ''ug'', \<lparr>Name = lit ''ug'', Cmd = lit ''apt upgrade'', Desc = []\<rparr>)]\<rparr>),
      (lit ''ls'', \<lparr>Label = lit ''ls'',
         Aliases = [(lit ''ll'', \<lparr>Name = lit ''ll'', Cmd = lit ''ls -l'', Desc = []\<rparr>)]\<rparr>)] 2) =
     [\<lparr>column_no = 0, block_label = lit ''apt'', origin_x = 2, origin_y = 2,
        width = 60, height = 4\<rparr>,
     \<lparr>column_no = 0, block_label = lit ''git'', origin_x = 2, origin_y = 6,
        width = 60, height = 5\<rparr>,
     \<lparr>column_no = 1, block_label = lit ''ls'', origin_x = 64, origin_y = 2,
        width = 60, height = 3\<rparr>]"
    by code_simp
  have l: "length (placed (drawPanels rounding_runtime 250 12
     [(lit ''git'', \<lparr>Label = lit ''git'',
         Aliases = [(lit ''gs'', \<lparr>Name = lit ''gs'', Cmd = lit ''git status'', Desc = []\<rparr>),
           (lit ''gl'', \<lparr>Name = lit ''gl'', Cmd = lit ''git log'', Desc = []\<rparr>),
           (lit ''gd'', \<lparr>Name = lit ''gd'', Cmd = lit ''git diff'', Desc = []\<rparr>)]\<rparr>),
      (lit ''apt'', \<lparr>Label = lit ''apt'',
         Aliases = [(lit ''up'', \<lparr>Name = lit ''up'', Cmd = lit ''apt update'', Desc = []\<rparr>),
            (lit ''ug'', \<lparr>Name = lit ''ug'', Cmd = lit ''apt upgrade'', Desc = []\<rparr>)]\<rparr>),
      (lit ''ls'', \<lparr>Label = lit ''ls'',
         Aliases = [(lit ''ll'', \<lparr>Name = lit ''ll'', Cmd = lit ''ls -l'', Desc = []\<rparr>)]\<rparr>)] 2)) = length
     [(lit ''git'', \<lparr>Label = lit ''git'',
         Aliases = [(lit ''gs'', \<lparr>Name = lit ''gs'', Cmd = lit ''git status'', Desc = []\<rparr>),
           (lit ''gl'', \<lparr>Name = lit ''gl'', Cmd = lit ''git log'', Desc = []\<rparr>),
           (lit ''gd'', \<lparr>Name = lit ''gd'', Cmd = lit ''git diff'', Desc = []\<rparr>)]\<rparr>),
      (lit ''apt'', \<lparr>Label = lit ''apt'',
         Aliases = [(lit ''up'', \<lparr>Name = lit ''up'', Cmd = lit ''apt update'', Desc = []\<rparr>),
            (lit ''ug'', \<lparr>Name = lit ''ug'', Cmd = lit ''apt upgrade'', Desc = []\<rparr>)]\<rparr>),
      (lit ''ls'', \<lparr>Label = lit ''ls'',
         Aliases = [(lit ''ll'', \<lparr>Name = lit ''ll'', Cmd = lit ''ls -l'', Desc = []\<rparr>)]\<rparr>)]"
    by code_simp
  from packing_first_fit [of rounding_runtime 250 12
     "[(lit ''git'', \<lparr>Label = lit ''git'',
         Aliases = [(lit ''gs'', \<lparr>Name = lit ''gs'', Cmd = lit ''git status'', Desc = []\<rparr>),
           (lit ''gl'', \<lparr>Name = lit ''gl'', Cmd = lit ''git log'', Desc = []\<rparr>),
           (lit ''gd'', \<lparr>Name = lit ''gd'', Cmd = lit ''git diff'', Desc = []\<rparr>)]\<rparr>),
      (lit ''apt'', \<lparr>Label = lit ''apt'',
         Aliases = [(lit ''up'', \<lparr>Name = lit ''up'', Cmd = lit ''apt update'', Desc = []\<rparr>),
            (lit ''ug'', \<lparr>Name = lit ''ug'', Cmd = lit ''apt upgrade'', Desc = []\<rparr>)]\<rparr>),
      (lit ''ls'', \<lparr>Label = lit ''ls'',
         Aliases = [(lit ''ll'', \<lparr>Name = lit ''ll'', Cmd = lit ''ls -l'', Desc = []\<rparr>)]\<rparr>)]" 2]
  have f: "successively (follows 2 12) (placed (drawPanels rounding_runtime 250 12
     [(lit ''git'', \<lparr>Label = lit ''git'',
         Aliases = [(lit ''gs'', \<lparr>Name = lit ''gs'', Cmd = lit ''git status'', Desc = []\<rparr>),
           (lit ''gl'', \<lparr>Name = lit ''gl'', Cmd = lit ''git log'', Desc = []\<rparr>),
           (lit ''gd'', \<lparr>Name = lit ''gd'', Cmd = lit ''git diff'', Desc = []\<rparr>)]\<rparr>),
      (lit ''apt'', \<lparr>Label = lit ''apt'',
         Aliases = [(lit ''up'', \<lparr>Name = lit ''up'', Cmd = lit ''apt update'', Desc = []\<rparr>),
            (lit ''ug'', \<lparr>Name = lit ''ug'', Cmd = lit ''apt upgrade'', Desc = []\<rparr>)]\<rparr>),
      (lit ''ls'', \<lparr>Label = lit ''ls'',
         Aliases = [(lit ''ll'', \<lparr>Name = lit ''ll'', Cmd = lit ''ls -l'', Desc = []\<rparr>)]\<rparr>)] 2))"
    by (elim conjE)
  show ?thesis
    by (intro conjI) (rule n o c e l f)+
qed

text \<open>
  C5 as stated fails at its threshold. In a window of 50 by 10 with margin 2
  a section of four one-line aliases is placed at row 2 with height 6,
  although this moves the cursor of the column to \<open>2 + 6 = 8\<close>, which
  reaches \<open>h - 2 = 8\<close>.
\<close>

theorem packing_threshold_counterexample:
  "placed (drawPanels rounding_runtime 50 10
     [(lit ''a'', \<lparr>Label = lit ''a'', Aliases =
        [(lit ''a'', \<lparr>Name = lit ''a'', Cmd = lit ''x'', Desc = []\<rparr>),
         (lit ''b'', \<lparr>Name = lit ''b'', Cmd = lit ''x'', Desc = []\<rparr>),
         (lit ''c'', \<lparr>Name = lit ''c'', Cmd = lit ''x'', Desc = []\<rparr>),
         (lit ''d'', \<lparr>Name = lit ''d'', Cmd = lit ''x'', Desc = []\<rparr>)]\<rparr>)] 2)
     = [\<lparr>column_no = 0, block_label = lit ''a'', origin_x = 2, origin_y = 2,
          width = 46, height = 6\<rparr>] \<and>
   (10::int) - 2 \<le> 2 + 6"
  by code_simp

section \<open>Drawing a section: the items in name order\<close>

lemma chunks_Nil: "chunks n [] = []"
  by (simp add: chunks.simps)

lemma chunks_step: "0 < n \<Longrightarrow> t \<noteq> [] \<Longrightarrow> chunks n t = take n t # chunks n (drop n t)"
  by (simp add: chunks.simps [of n t])

lemma chunks_short: "0 < n \<Longrightarrow> t \<noteq> [] \<Longrightarrow> length t \<le> n \<Longrightarrow> chunks n t = [t]"
  by (simp add: chunks_step chunks_Nil)

lemma length_chunks:
  "0 < n \<Longrightarrow> int (length (chunks n t)) = - ((- int (length t)) div int n)"
proof (induction n t rule: chunks.induct)
  case (1 n t)
  show ?case
  proof (cases "t = []")
    case True
    then show ?thesis by (simp add: chunks_Nil)
  next
    case False
    with 1 have IH: "int (length (chunks n (drop n t))) = - ((- int (length (drop n t))) div int n)"
      by simp
    show ?thesis
    proof (cases "length t \<le> n")
      case True
      with False 1(2) have "0 < int (length t)" "int (length t) \<le> int n" by simp_all
      then have "(- int (length t)) div int n = - 1"
        by (cases "int (length t) = int n") (simp_all add: zdiv_zminus1_eq_if)
      with True False 1(2) show ?thesis by (simp add: chunks_short)
    next
      case long: False
      then have eq: "- int (length (drop n t)) = - int (length t) + int n" by simp
      have "int n \<noteq> 0" using 1(2) by simp
      then have "(- int (length t) + int n) div int n = (- int (length t)) div int n + 1"
        by (rule div_add_self2)
      then have "(- int (length (drop n t))) div int n = (- int (length t)) div int n + 1"
        by (simp only: eq)
      with IH False 1(2) show ?thesis by (simp add: chunks_step)
    qed
  qed
qed

lemma chunks_cover:
  assumes "0 < aw"
  shows "int (length t) \<le> int (length (chunks (nat aw) t)) * aw"
proof -
  have "int (length (chunks (nat aw) t)) = - ((- int (length t)) div aw)"
    using assms length_chunks [of "nat aw" t] by simp
  moreover have "0 \<le> (- int (length t)) mod aw" using assms by simp
  then have "aw * ((- int (length t)) div aw) \<le> - int (length t)"
    using mult_div_mod_eq [of aw "- int (length t)"] by linarith
  ultimately show ?thesis by (simp add: mult.commute)
qed

lemma minHeight_chunks:
  assumes "ascii t" "0 < aw"
  shows "minHeight aw t = Inr (int (length (chunks (nat aw) t)))"
proof -
  have "int (length (chunks (nat aw) t)) = - ((- int (length t)) div aw)"
    using assms(2) length_chunks [of "nat aw" t] by simp
  with assms show ?thesis by (simp add: minHeight_pos ascii_len)
qed

lemma fill_line_ascii:
  assumes "ascii tt"
  shows "0 \<le> i \<Longrightarrow> i \<le> int (length tt) \<Longrightarrow> j \<le> w \<Longrightarrow>
     fill_line tt i j w b =
       (if int (length tt) - i < w - j then Inr (True, int (length tt), b @ drop (nat i) tt)
        else Inr (False, i + (w - j), b @ take (nat (w - j)) (drop (nat i) tt)))"
proof (induction "nat (w - j)" arbitrary: i j b rule: less_induct)
  case less
  have n: "len tt = int (length tt)" using assms by (rule ascii_len)
  show ?case
  proof (cases "j < w")
    case False
    with less.prems show ?thesis by (subst fill_line.simps) simp
  next
    case True
    show ?thesis
    proof (cases "i < int (length tt)")
      case False
      with less.prems True show ?thesis by (subst fill_line.simps) (simp add: n)
    next
      case in_range: True
      have "nat (w - (j + 1)) < nat (w - j)" using True by simp
      from less.hyps [OF this, of "i + 1" "b @ [tt ! nat i]"] less.prems in_range True
      have step: "fill_line tt (i + 1) (j + 1) w (b @ [tt ! nat i]) =
          (if int (length tt) - (i + 1) < w - (j + 1)
           then Inr (True, int (length tt), (b @ [tt ! nat i]) @ drop (nat (i + 1)) tt)
           else Inr (False, i + 1 + (w - (j + 1)),
                     (b @ [tt ! nat i]) @ take (nat (w - (j + 1))) (drop (nat (i + 1)) tt)))"
        by simp
      have d: "drop (nat i) tt = tt ! nat i # drop (nat (i + 1)) tt"
        using in_range less.prems(1) by (simp add: Cons_nth_drop_Suc nat_add_distrib)
      have t: "nat (w - j) = Suc (nat (w - (j + 1)))" using True by simp
      show ?thesis
        using True in_range less.prems(1) step
        by (subst fill_line.simps) (simp add: n d t)
    qed
  qed
qed

lemma text_rows_Nil: "text_rows x y st n [] = []"
  by (simp add: text_rows_def chunks_Nil)

lemma text_rows_step:
  assumes "0 < n" "t \<noteq> []"
  shows "text_rows x y st n t = EmitStr x y st (take n t) # text_rows x (y + 1) st n (drop n t)"
proof -
  have "map (\<lambda>(k, line). EmitStr x (y + int k) st line) (enumerate (Suc 0) ls)
      = map (\<lambda>(k, line). EmitStr x (y + 1 + int k) st line) (enumerate 0 ls)" for ls
    by (simp add: enumerate_Suc_eq [of 0] split_def ac_simps)
  then show ?thesis using assms by (simp add: text_rows_def chunks_step)
qed

lemma text_lines_ascii:
  assumes "ascii tt" "0 < w"
  shows "0 \<le> i \<Longrightarrow> i \<le> int (length tt) \<Longrightarrow>
     text_lines tt x y w st i = (text_rows x y st (nat w) (drop (nat i) tt), Returned)"
proof (induction "nat (int (length tt) - i)" arbitrary: i y rule: less_induct)
  case less
  have n: "len tt = int (length tt)" using assms(1) by (rule ascii_len)
  show ?case
  proof (cases "i < int (length tt)")
    case False
    with less.prems show ?thesis
      by (subst text_lines.simps) (simp add: n text_rows_Nil)
  next
    case True
    then have ne: "drop (nat i) tt \<noteq> []" using less.prems(1) by simp
    note fl = fill_line_ascii [OF assms(1) less.prems, of 0 w "[]"]
    show ?thesis
    proof (cases "int (length tt) - i < w")
      case short: True
      then have "length (drop (nat i) tt) \<le> nat w" using less.prems(1) by simp
      with ne assms(2) have "chunks (nat w) (drop (nat i) tt) = [drop (nat i) tt]"
        by (intro chunks_short) simp_all
      then have "text_rows x y st (nat w) (drop (nat i) tt) = [EmitStr x y st (drop (nat i) tt)]"
        by (simp add: text_rows_def)
      with True short fl assms(2) show ?thesis
        by (subst text_lines.simps) (simp add: n)
    next
      case long: False
      have "nat (int (length tt) - (i + w)) < nat (int (length tt) - i)"
        using True assms(2) by simp
      from less.hyps [OF this, of "y + 1"] long less.prems(1) assms(2)
      have rec: "text_lines tt x (y + 1) w st (i + w)
          = (text_rows x (y + 1) st (nat w) (drop (nat (i + w)) tt), Returned)" by simp
      have "drop (nat (i + w)) tt = drop (nat w) (drop (nat i) tt)"
        using less.prems(1) assms(2) by (simp add: nat_add_distrib add.commute)
      with text_rows_step [OF _ ne, of "nat w" x y st] assms(2)
      have "text_rows x y st (nat w) (drop (nat i) tt)
          = EmitStr x y st (take (nat w) (drop (nat i) tt))
            # text_rows x (y + 1) st (nat w) (drop (nat (i + w)) tt)" by simp
      with True long fl assms(2) rec show ?thesis
        by (subst text_lines.simps) (simp add: n)
    qed
  qed
qed

lemma drawTextBox_ascii:
  assumes "ascii t" "0 < aw"
  shows "drawTextBox rt ax ay aw (int (length (chunks (nat aw) t))) st t
           = (text_rows ax ay st (nat aw) t, Returned)"
proof -
  have "len t \<le> int (length (chunks (nat aw) t)) * aw"
    using chunks_cover [OF assms(2), of t] assms(1) by (simp add: ascii_len)
  moreover have "0 \<le> int (length (chunks (nat aw) t)) * aw"
    using assms(2) by simp
  ultimately have "truncate rt t (int (length (chunks (nat aw) t)) * aw) = Inr t"
    by (simp add: truncate_def)
  moreover have "text_lines t ax ay aw st 0 = (text_rows ax ay st (nat aw) (drop (nat 0) t), Returned)"
    using assms by (intro text_lines_ascii) simp_all
  ultimately show ?thesis using assms(2) by (simp add: drawTextBox_def)
qed

lemma draw_aliases_ascii:
  assumes "0 < aw" "\<forall>n\<in>set names. ascii (item_text (alias_at als n))"
  shows "draw_aliases rt y h ax ay aw als names
           = (body_rows y h ax ay (nat aw) (map (\<lambda>n. item_text (alias_at als n)) names), Returned)"
  using assms(2)
proof (induction names arbitrary: ay)
  case Nil
  show ?case by simp
next
  case (Cons an names)
  define t where "t = item_text (alias_at als an)"
  have a: "ascii t" using Cons.prems by (simp add: t_def)
  have t': "Name (alias_at als an) @ lit '': '' @ Cmd (alias_at als an) = t"
    by (simp add: t_def item_text_def)
  have mh: "minHeight aw t = Inr (int (length (chunks (nat aw) t)))"
    using a assms(1) by (rule minHeight_chunks)
  have dt: "drawTextBox rt ax ay aw (int (length (chunks (nat aw) t))) Red t
      = (text_rows ax ay Red (nat aw) t, Returned)"
    using a assms(1) by (rule drawTextBox_ascii)
  have IH: "draw_aliases rt y h ax ay' aw als names
      = (body_rows y h ax ay' (nat aw) (map (\<lambda>n. item_text (alias_at als n)) names), Returned)" for ay'
    using Cons.prems by (intro Cons.IH) simp
  show ?case
    by (simp add: Let_def t' mh dt IH t_def [symmetric])
qed

lemma ascii_item_text:
  assumes "ascii_section sn" "n \<in> set (map fst (Aliases sn))"
  shows "ascii (item_text (alias_at (Aliases sn) n))"
proof -
  from assms(2) have "map_of (Aliases sn) n \<noteq> None" by (simp add: map_of_eq_None_iff)
  then obtain a where a: "map_of (Aliases sn) n = Some a" by auto
  then have "(n, a) \<in> set (Aliases sn)" by (rule map_of_SomeD)
  with assms(1) have "ascii (Name a)" "ascii (Cmd a)"
    by (auto simp add: ascii_section_def list_all_iff)
  then show ?thesis
    by (simp add: alias_at_def a item_text_def ascii_def lit_def)
qed

lemma drawSection_picture:
  assumes "0 \<le> x" "0 \<le> y" "4 \<le> w" "0 \<le> h" "ascii_section sn" "len (Label sn) \<le> w - 4"
  shows "drawSection rt x y w h sn = (section_picture x y w h sn, Returned)"
proof -
  have tr: "truncate rt (Label sn) (w - 4) = Inr (Label sn)"
    using assms(3,6) by (simp add: truncate_def)
  have "\<forall>n\<in>set (sort (map fst (Aliases sn))). ascii (item_text (alias_at (Aliases sn) n))"
    using ascii_item_text [OF assms(5)] by simp
  then have "draw_aliases rt y h (x + 1) (y + 1) (w - 2) (Aliases sn) (sort (map fst (Aliases sn)))
      = (body_rows y h (x + 1) (y + 1) (nat (w - 2)) (items_in_name_order sn), Returned)"
    using assms(3) by (simp add: draw_aliases_ascii items_in_name_order_def)
  with tr assms(1-4) show ?thesis
    by (simp add: drawSection_def section_picture_def Let_def)
qed

section \<open>The layout pass: independence of the iteration order\<close>

lemma sort_distinct_set:
  fixes xs ys :: "'a::linorder list"
  assumes "distinct xs" "distinct ys" "set xs = set ys"
  shows "sort xs = sort ys"
proof -
  have "sort xs = sorted_list_of_set (set xs)"
    using assms(1) by (simp add: sorted_list_of_set_sort_remdups distinct_remdups_id)
  also have "\<dots> = sort ys"
    using assms(2,3) by (simp add: sorted_list_of_set_sort_remdups distinct_remdups_id)
  finally show ?thesis .
qed

lemma body_height_sum:
  "pw \<noteq> 2 \<Longrightarrow> body_height pw als bh
     = Inr (bh + sum_list (map (\<lambda>p. projr (minHeight (pw - 2) (Name (snd p) @ lit '': '' @ Cmd (snd p)))) als))"
proof (induction als arbitrary: bh)
  case Nil
  show ?case by simp
next
  case (Cons p als)
  obtain an a where p: "p = (an, a)" by (cases p)
  from Cons.prems obtain ah where ah: "minHeight (pw - 2) (Name a @ lit '': '' @ Cmd a) = Inr ah"
    by (simp add: minHeight_def Let_def)
  with Cons.IH [OF Cons.prems, of "bh + ah"] show ?case by (simp add: p)
qed

lemma body_height_same:
  assumes "same_aliases als als'"
  shows "body_height pw als bh = body_height pw als' bh"
proof (cases "pw = 2")
  case True
  from assms have "als = [] \<longleftrightarrow> als' = []"
    by (metis same_aliases_def set_empty)
  then show ?thesis
    using body_height_zero_width [of als bh] body_height_zero_width [of als' bh] True
    by (cases "als = []") simp_all
next
  case False
  from assms have d: "distinct als" "distinct als'" and s: "set als = set als'"
    by (simp_all add: same_aliases_def distinct_map)
  show ?thesis
    by (simp add: body_height_sum [OF False] sum_list_distinct_conv_sum_set d s)
qed

lemma alias_at_same: "same_aliases als als' \<Longrightarrow> alias_at als n = alias_at als' n"
  using map_of_inject_set [of als als'] by (simp add: same_aliases_def alias_at_def)

lemma draw_aliases_same:
  assumes "\<And>n. alias_at als n = alias_at als' n"
  shows "draw_aliases rt y h ax ay aw als names = draw_aliases rt y h ax ay aw als' names"
proof (induction names arbitrary: ay)
  case Nil
  show ?case by simp
next
  case (Cons an names)
  show ?case
    by (simp add: assms Cons.IH Let_def
        cong: if_cong sum.case_cong prod.case_cong ending.case_cong failure.case_cong)
qed

lemma drawSection_same:
  assumes "same_section s s'"
  shows "drawSection rt x y w h s = drawSection rt x y w h s'"
proof -
  from assms have l: "Label s = Label s'" and a: "same_aliases (Aliases s) (Aliases s')"
    by (simp_all add: same_section_def)
  from a have "sort (map fst (Aliases s)) = sort (map fst (Aliases s'))"
    by (intro sort_distinct_set) (auto simp add: same_aliases_def)
  moreover have "draw_aliases rt y h ax ay aw (Aliases s) names
      = draw_aliases rt y h ax ay aw (Aliases s') names" for ax ay aw names
    by (rule draw_aliases_same) (rule alias_at_same [OF a])
  ultimately show ?thesis
    by (simp add: drawSection_def l Let_def
        cong: if_cong sum.case_cong prod.case_cong failure.case_cong)
qed

lemma column_same:
  assumes "\<And>k. same_section (section_at sm k) (section_at sm' k)"
  shows "column rt h pw px c sm py rest = column rt h pw px c sm' py rest"
proof (induction rest arbitrary: py)
  case Nil
  show ?case by simp
next
  case (Cons sl rest)
  have b: "body_height pw (Aliases (section_at sm sl)) 0
      = body_height pw (Aliases (section_at sm' sl)) 0"
    using assms [of sl] by (intro body_height_same) (simp add: same_section_def)
  have d: "drawSection rt px py pw hh (section_at sm sl)
      = drawSection rt px py pw hh (section_at sm' sl)" for hh
    using assms [of sl] by (rule drawSection_same)
  show ?case
    by (simp add: column_Cons b d Cons.IH Let_def cong: if_cong sum.case_cong)
qed

lemma columns_same:
  assumes "\<And>k. same_section (section_at sm k) (section_at sm' k)"
  shows "columns rt nc h pw m sm c rest = columns rt nc h pw m sm' c rest"
proof (induction c rest rule: columns_induct [where rt = rt and nc = nc and h = h and pw = pw and m = m and sm = sm])
  case (step c rest)
  note col = column_same [OF assms, of rt h pw "m + (pw + m) * c" c m rest]
  show ?case
  proof (cases "c < nc")
    case False
    then show ?thesis
      by (simp add: columns.simps [of rt nc h pw m sm c rest] columns.simps [of rt nc h pw m sm' c rest])
  next
    case True
    obtain pls evs f where res: "column rt h pw (m + (pw + m) * c) c sm m rest = (pls, evs, f)"
      by (cases "column rt h pw (m + (pw + m) * c) c sm m rest") auto
    show ?thesis
    proof (cases f)
      case (Continue rest')
      from step.IH [OF True res [unfolded Continue]]
      show ?thesis using True res Continue
        by (simp add: columns.simps [of rt nc h pw m sm c rest] columns.simps [of rt nc h pw m sm' c rest]
            col [symmetric])
    next
      case Break
      then show ?thesis using True res
        by (simp add: columns.simps [of rt nc h pw m sm c rest] columns.simps [of rt nc h pw m sm' c rest]
            col [symmetric])
    next
      case (Halt r)
      then show ?thesis using True res
        by (simp add: columns.simps [of rt nc h pw m sm c rest] columns.simps [of rt nc h pw m sm' c rest]
            col [symmetric])
    qed
  qed
qed

lemma same_sections_at:
  assumes "same_sections sm sm'"
  shows "same_section (section_at sm k) (section_at sm' k)"
proof (cases "k \<in> set (map fst sm)")
  case True
  from assms have "list_all (\<lambda>k. same_section (section_at sm k) (section_at sm' k)) (map fst sm)"
    unfolding same_sections_def by (elim conjE)
  then have "\<forall>k\<in>set (map fst sm). same_section (section_at sm k) (section_at sm' k)"
    by (simp only: list_all_iff)
  with True show ?thesis by blast
next
  case False
  with assms have "k \<notin> fst ` set sm" "k \<notin> fst ` set sm'"
    by (simp_all add: same_sections_def)
  then have "map_of sm k = None" "map_of sm' k = None"
    by (simp_all add: map_of_eq_None_iff)
  then show ?thesis
    by (simp add: section_at_def zero_section_def same_section_def same_aliases_def)
qed

lemma sorted_take_sort: "sorted (take n (sort xs))"
  by (simp add: sorted_wrt_take)

text \<open>
  C9. Two group collections that are equal as maps, whatever the order in
  which their sections and the aliases of each section are iterated, give
  the same pass: the same placements in the same order and the same
  sequence of drawing calls. The labels of the blocks placed are in
  lexicographic order, and the trace of the pass is the help line followed
  by the drawing of the blocks in the order of their placement. Within a
  block the items are rendered in the lexicographic order of their names:
  for a section of ASCII text whose label fits the frame, placed with a
  margin that is not negative in a column at least 4 wide, the call draws
  the frame, the label, and then the texts \<open>name: command\<close> of the items in
  name order, each wrapped to the interior width on successive rows, up to
  the first item that would reach the bottom of the frame.
\<close>

theorem drawPanels_deterministic:
  assumes "same_sections sm sm'"
  shows "drawPanels rt w h sm m = drawPanels rt w h sm' m \<and>
         sorted (map block_label (placed (drawPanels rt w h sm m))) \<and>
         (10 \<le> w \<and> 10 \<le> h \<longrightarrow>
            drawn (drawPanels rt w h sm m) =
              EmitStr (w - 20) 0 White (lit ''Press [Q]uit to exit'') #
              concat (map (\<lambda>pl. fst (section_call rt sm pl)) (placed (drawPanels rt w h sm m))) @
              (if placed (drawPanels rt w h sm m) \<noteq> [] \<and>
                  snd (section_call rt sm (last (placed (drawPanels rt w h sm m))))
                    = Failed InvalidArgument
               then [LogError InvalidArgument] else [])) \<and>
         (\<forall>pl\<in>set (placed (drawPanels rt w h sm m)).
            0 \<le> m \<and> 4 \<le> width pl \<and>
            ascii_section (section_at sm (block_label pl)) \<and>
            len (Label (section_at sm (block_label pl))) \<le> width pl - 4 \<longrightarrow>
              section_call rt sm pl =
                (section_picture (origin_x pl) (origin_y pl) (width pl) (height pl)
                   (section_at sm (block_label pl)), Returned))"
proof -
  from assms have "sort (map fst sm) = sort (map fst sm')"
    by (intro sort_distinct_set) (simp_all add: same_sections_def)
  moreover have "columns rt nc h pw m sm 0 rest = columns rt nc h pw m sm' 0 rest" for nc pw rest
    by (rule columns_same) (rule same_sections_at [OF assms])
  ultimately have same: "drawPanels rt w h sm m = drawPanels rt w h sm' m"
    by (simp add: drawPanels_def Let_def cong: if_cong sum.case_cong)
  have sorted: "sorted (map block_label (placed (drawPanels rt w h sm m)))"
    using packing_labels_prefix [of rt w h sm m] by (simp add: sorted_take_sort)
  have picture: "section_call rt sm pl =
        (section_picture (origin_x pl) (origin_y pl) (width pl) (height pl)
           (section_at sm (block_label pl)), Returned)"
    if pl: "pl \<in> set (placed (drawPanels rt w h sm m))" and m: "0 \<le> m" and wide: "4 \<le> width pl"
      and asc: "ascii_section (section_at sm (block_label pl))"
      and lab: "len (Label (section_at sm (block_label pl))) \<le> width pl - 4" for pl
  proof -
    from pl have "placed (drawPanels rt w h sm m) \<noteq> []" by auto
    then have big: "10 \<le> w" "10 \<le> h" using drawPanels_placed_large by blast+
    from big show ?thesis
    proof (rule drawPanels_large [where rt = rt and sm = sm and m = m])
      fix nc pw pls evs r
      assume cols: "columns rt nc h pw m sm 0 (sort (map fst sm)) = (pls, evs, r)"
        and dp: "drawPanels rt w h sm m = \<lparr>placed = pls,
         drawn = EmitStr (w - 20) 0 White (lit ''Press [Q]uit to exit'') # evs, outcome = r\<rparr>"
      from pl dp have mem: "pl \<in> set pls" by simp
      note g = columns_geometry [OF cols mem]
      note o = columns_origin [OF cols mem]
      from g obtain bh where bh: "body_height pw (Aliases (section_at sm (block_label pl))) 0 = Inr bh"
        and hp: "height pl = bh + 2" by auto
      from g wide have "2 < pw" by simp
      from body_height_grows [OF this bh] hp have h0: "0 \<le> height pl" by simp
      from g wide m have "0 \<le> (pw + m) * column_no pl" by (intro mult_nonneg_nonneg) simp_all
      with g m have x0: "0 \<le> origin_x pl" by simp
      from o m have y0: "0 \<le> origin_y pl" by simp
      show ?thesis
        unfolding section_call_def by (rule drawSection_picture [OF x0 y0 wide h0 asc lab])
    qed
  qed
  from same sorted picture drawPanels_events [of w h rt sm m] show ?thesis by blast
qed

theorem drawPanels_deterministic_witness:
  "same_sections
     [(lit ''git'', \<lparr>Label = lit ''git'',
         Aliases = [(lit ''gs'', \<lparr>Name = lit ''gs'', Cmd = lit ''git status'', Desc = []\<rparr>),
           (lit ''gd'', \<lparr>Name = lit ''gd'', Cmd = lit ''git diff'', Desc = []\<rparr>)]\<rparr>),
      (lit ''apt'', \<lparr>Label = lit ''apt'',
         Aliases = [(lit ''up'', \<lparr>Name = lit ''up'', Cmd = lit ''apt update'', Desc = []\<rparr>)]\<rparr>)]
     [(lit ''apt'', \<lparr>Label = lit ''apt'',
         Aliases = [(lit ''up'', \<lparr>Name = lit ''up'', Cmd = lit ''apt update'', Desc = []\<rparr>)]\<rparr>),
      (lit ''git'', \<lparr>Label = lit ''git'',
         Aliases = [(lit ''gd'', \<lparr>Name = lit ''gd'', Cmd = lit ''git diff'', Desc = []\<rparr>),
           (lit ''gs'', \<lparr>Name = lit ''gs'', Cmd = lit ''git status'', Desc = []\<rparr>)]\<rparr>)] \<and>
   drawPanels rounding_runtime 100 24
     [(lit ''git'', \<lparr>Label = lit ''git'',
         Aliases = [(lit ''gs'', \<lparr>Name = lit ''gs'', Cmd = lit ''git status'', Desc = []\<rparr>),
           (lit ''gd'', \<lparr>Name = lit ''gd'', Cmd = lit ''git diff'', Desc = []\<rparr>)]\<rparr>),
      (lit ''apt'', \<lparr>Label = lit ''apt'',
         Aliases = [(lit ''up'', \<lparr>Name = lit ''up'', Cmd = lit ''apt update'', Desc = []\<rparr>)]\<rparr>)] 2
   = drawPanels rounding_runtime 100 24
     [(lit ''apt'', \<lparr>Label = lit ''apt'',
         Aliases = [(lit ''up'', \<lparr>Name = lit ''up'', Cmd = lit ''apt update'', Desc = []\<rparr>)]\<rparr>),
      (lit ''git'', \<lparr>Label = lit ''git'',
         Aliases = [(lit ''gd'', \<lparr>Name = lit ''gd'', Cmd = lit ''git diff'', Desc = []\<rparr>),
           (lit ''gs'', \<lparr>Name = lit ''gs'', Cmd = lit ''git status'', Desc = []\<rparr>)]\<rparr>)] 2 \<and>
   section_call rounding_runtime
     [(lit ''git'', \<lparr>Label = lit ''git'',
         Aliases = [(lit ''gs'', \<lparr>Name = lit ''gs'', Cmd = lit ''git status'', Desc = []\<rparr>),
           (lit ''gd'', \<lparr>Name = lit ''gd'', Cmd = lit ''git diff'', Desc = []\<rparr>)]\<rparr>),
      (lit ''apt'', \<lparr>Label = lit ''apt'',
         Aliases = [(lit ''up'', \<lparr>Name = lit ''up'', Cmd = lit ''apt update'', Desc = []\<rparr>)]\<rparr>)]
     \<lparr>column_no = 0, block_label = lit ''git'', origin_x = 2, origin_y = 5,
        width = 96, height = 4\<rparr> =
     ([DrawBox 2 5 96 4 White, EmitStr 47 5 Red (lit ''[git]''),
       EmitStr 3 6 Red (lit ''gd: git diff''), EmitStr 3 7 Red (lit ''gs: git status'')],
      Returned)"
proof -
  have h: "same_sections
     [(lit ''git'', \<lparr>Label = lit ''git'',
         Aliases = [(lit ''gs'', \<lparr>Name = lit ''gs'', Cmd = lit ''git status'', Desc = []\<rparr>),
           (lit ''gd'', \<lparr>Name = lit ''gd'', Cmd = lit ''git diff'', Desc = []\<rparr>)]\<rparr>),
      (lit ''apt'', \<lparr>Label = lit ''apt'',
         Aliases = [(lit ''up'', \<lparr>Name = lit ''up'', Cmd = lit ''apt update'', Desc = []\<rparr>)]\<rparr>)]
     [(lit ''apt'', \<lparr>Label = lit ''apt'',
         Aliases = [(lit ''up'', \<lparr>Name = lit ''up'', Cmd = lit ''apt update'', Desc = []\<rparr>)]\<rparr>),
      (lit ''git'', \<lparr>Label = lit ''git'',
         Aliases = [(lit ''gd'', \<lparr>Name = lit ''gd'', Cmd = lit ''git diff'', Desc = []\<rparr>),
           (lit ''gs'', \<lparr>Name = lit ''gs'', Cmd = lit ''git status'', Desc = []\<rparr>)]\<rparr>)]"
    by code_simp
  have e: "placed (drawPanels rounding_runtime 100 24
     [(lit ''git'', \<lparr>Label = lit ''git'',
         Aliases = [(lit ''gs'', \<lparr>Name = lit ''gs'', Cmd = lit ''git status'', Desc = []\<rparr>),
           (lit ''gd'', \<lparr>Name = lit ''gd'', Cmd = lit ''git diff'', Desc = []\<rparr>)]\<rparr>),
      (lit ''apt'', \<lparr>Label = lit ''apt'',
         Aliases = [(lit ''up'', \<lparr>Name = lit ''up'', Cmd = lit ''apt update'', Desc = []\<rparr>)]\<rparr>)] 2) =
     [\<lparr>column_no = 0, block_label = lit ''apt'', origin_x = 2, origin_y = 2,
        width = 96, height = 3\<rparr>,
      \<lparr>column_no = 0, block_label = lit ''git'', origin_x = 2, origin_y = 5,
        width = 96, height = 4\<rparr>]"
    by code_simp
  have s: "section_at
     [(lit ''git'', \<lparr>Label = lit ''git'',
         Aliases = [(lit ''gs'', \<lparr>Name = lit ''gs'', Cmd = lit ''git status'', Desc = []\<rparr>),
           (lit ''gd'', \<lparr>Name = lit ''gd'', Cmd = lit ''git diff'', Desc = []\<rparr>)]\<rparr>),
      (lit ''apt'', \<lparr>Label = lit ''apt'',
         Aliases = [(lit ''up'', \<lparr>Name = lit ''up'', Cmd = lit ''apt update'', Desc = []\<rparr>)]\<rparr>)] (lit ''git'') =
     \<lparr>Label = lit ''git'',
         Aliases = [(lit ''gs'', \<lparr>Name = lit ''gs'', Cmd = lit ''git status'', Desc = []\<rparr>),
           (lit ''gd'', \<lparr>Name = lit ''gd'', Cmd = lit ''git diff'', Desc = []\<rparr>)]\<rparr>"
    by code_simp
  have a: "ascii_section
     \<lparr>Label = lit ''git'',
         Aliases = [(lit ''gs'', \<lparr>Name = lit ''gs'', Cmd = lit ''git status'', Desc = []\<rparr>),
           (lit ''gd'', \<lparr>Name = lit ''gd'', Cmd = lit ''git diff'', Desc = []\<rparr>)]\<rparr>"
    by code_simp
  have l: "len (lit ''git'') \<le> 96 - 4"
    by code_simp
  have p: "section_picture 2 5 96 4
     \<lparr>Label = lit ''git'',
         Aliases = [(lit ''gs'', \<lparr>Name = lit ''gs'', Cmd = lit ''git status'', Desc = []\<rparr>),
           (lit ''gd'', \<lparr>Name = lit ''gd'', Cmd = lit ''git diff'', Desc = []\<rparr>)]\<rparr> =
     [DrawBox 2 5 96 4 White, EmitStr 47 5 Red (lit ''[git]''),
       EmitStr 3 6 Red (lit ''gd: git diff''), EmitStr 3 7 Red (lit ''gs: git status'')]"
    by code_simp
  note t = drawPanels_deterministic [OF h, of rounding_runtime 100 24 2]
  from t have same: "drawPanels rounding_runtime 100 24
     [(lit ''git'', \<lparr>Label = lit ''git'',
         Aliases = [(lit ''gs'', \<lparr>Name = lit ''gs'', Cmd = lit ''git status'', Desc = []\<rparr>),
           (lit ''gd'', \<lparr>Name = lit ''gd'', Cmd = lit ''git diff'', Desc = []\<rparr>)]\<rparr>),
      (lit ''apt'', \<lparr>Label = lit ''apt'',
         Aliases = [(lit ''up'', \<lparr>Name = lit ''up'', Cmd = lit ''apt update'', Desc = []\<rparr>)]\<rparr>)] 2
   = drawPanels rounding_runtime 100 24
     [(lit ''apt'', \<lparr>Label = lit ''apt'',
         Aliases = [(lit ''up'', \<lparr>Name = lit ''up'', Cmd = lit ''apt update'', Desc = []\<rparr>)]\<rparr>),
      (lit ''git'', \<lparr>Label = lit ''git'',
         Aliases = [(lit ''gd'', \<lparr>Name = lit ''gd'', Cmd = lit ''git diff'', Desc = []\<rparr>),
           (lit ''gs'', \<lparr>Name = lit ''gs'', Cmd = lit ''git status'', Desc = []\<rparr>)]\<rparr>)] 2"
    by (rule conjunct1)
  have mem: "\<lparr>column_no = 0, block_label = lit ''git'', origin_x = 2, origin_y = 5,
        width = 96, height = 4\<rparr> \<in> set (placed (drawPanels rounding_runtime 100 24
     [(lit ''git'', \<lparr>Label = lit ''git'',
         Aliases = [(lit ''gs'', \<lparr>Name = lit ''gs'', Cmd = lit ''git status'', Desc = []\<rparr>),
           (lit ''gd'', \<lparr>Name = lit ''gd'', Cmd = lit ''git diff'', Desc = []\<rparr>)]\<rparr>),
      (lit ''apt'', \<lparr>Label = lit ''apt'',
         Aliases = [(lit ''up'', \<lparr>Name = lit ''up'', Cmd = lit ''apt update'', Desc = []\<rparr>)]\<rparr>)] 2))"
    by (simp add: e)
  note pic = t [THEN conjunct2, THEN conjunct2, THEN conjunct2, THEN bspec, OF mem]
  from pic s a l have call: "section_call rounding_runtime
     [(lit ''git'', \<lparr>Label = lit ''git'',
         Aliases = [(lit ''gs'', \<lparr>Name = lit ''gs'', Cmd = lit ''git status'', Desc = []\<rparr>),
           (lit ''gd'', \<lparr>Name = lit ''gd'', Cmd = lit ''git diff'', Desc = []\<rparr>)]\<rparr>),
      (lit ''apt'', \<lparr>Label = lit ''apt'',
         Aliases = [(lit ''up'', \<lparr>Name = lit ''up'', Cmd = lit ''apt update'', Desc = []\<rparr>)]\<rparr>)]
     \<lparr>column_no = 0, block_label = lit ''git'', origin_x = 2, origin_y = 5,
        width = 96, height = 4\<rparr> =
     (section_picture 2 5 96 4
     \<lparr>Label = lit ''git'',
         Aliases = [(lit ''gs'', \<lparr>Name = lit ''gs'', Cmd = lit ''git status'', Desc = []\<rparr>),
           (lit ''gd'', \<lparr>Name = lit ''gd'', Cmd = lit ''git diff'', Desc = []\<rparr>)]\<rparr>, Returned)"
    by simp
  from call p have drawn: "section_call rounding_runtime
     [(lit ''git'', \<lparr>Label = lit ''git'',
         Aliases = [(lit ''gs'', \<lparr>Name = lit ''gs'', Cmd = lit ''git status'', Desc = []\<rparr>),
           (lit ''gd'', \<lparr>Name = lit ''gd'', Cmd = lit ''git diff'', Desc = []\<rparr>)]\<rparr>),
      (lit ''apt'', \<lparr>Label = lit ''apt'',
         Aliases = [(lit ''up'', \<lparr>Name = lit ''up'', Cmd = lit ''apt update'', Desc = []\<rparr>)]\<rparr>)]
     \<lparr>column_no = 0, block_label = lit ''git'', origin_x = 2, origin_y = 5,
        width = 96, height = 4\<rparr> =
     ([DrawBox 2 5 96 4 White, EmitStr 47 5 Red (lit ''[git]''),
       EmitStr 3 6 Red (lit ''gd: git diff''), EmitStr 3 7 Red (lit ''gs: git status'')],
      Returned)"
    by (simp only:)
  show ?thesis
    by (intro conjI) (rule h same drawn)+
qed

end
